theory Spec2Isabelle
  imports Main
begin

section \<open>Errors and Python sequence primitives\<close>

text \<open>
  The exceptions the sources can raise. \<open>ValueError\<close> is raised explicitly by
  \<open>Hitori.blank\<close>, \<open>AssertionError\<close> by the \<open>assert\<close> of \<open>Hitori.__init__\<close>
  (assertions are taken as enabled), \<open>IndexError\<close> by sequence indexing and
  \<open>KeyError\<close> by dictionary indexing.
\<close>

datatype error = AssertionError | IndexError | KeyError | ValueError

text \<open>\<open>xs[i]\<close> on a Python sequence: a negative index counts from the end.\<close>

definition norm_index :: "nat \<Rightarrow> int \<Rightarrow> nat option" where
  "norm_index n i =
     (if 0 \<le> i \<and> i < int n then Some (nat i)
      else if - int n \<le> i \<and> i < 0 then Some (nat (int n + i))
      else None)"

definition py_getitem :: "'a list \<Rightarrow> int \<Rightarrow> error + 'a" where
  "py_getitem xs i = (case norm_index (length xs) i of None \<Rightarrow> Inl IndexError | Some j \<Rightarrow> Inr (xs ! j))"

text \<open>\<open>xs[i] = v\<close> on a Python list.\<close>

definition py_setitem :: "'a list \<Rightarrow> int \<Rightarrow> 'a \<Rightarrow> error + 'a list" where
  "py_setitem xs i v = (case norm_index (length xs) i of None \<Rightarrow> Inl IndexError | Some j \<Rightarrow> Inr (xs[j := v]))"

text \<open>The slices \<open>s[:i]\<close> and \<open>s[i:]\<close>; slicing clamps and never raises.\<close>

definition slice_to :: "'a list \<Rightarrow> int \<Rightarrow> 'a list" where
  "slice_to s i = (if 0 \<le> i then take (nat i) s else take (nat (int (length s) + i)) s)"

definition slice_from :: "'a list \<Rightarrow> int \<Rightarrow> 'a list" where
  "slice_from s i = (if 0 \<le> i then drop (nat i) s else drop (nat (int (length s) + i)) s)"

text \<open>\<open>range(n)\<close> as a list of Python integers.\<close>

definition py_range :: "nat \<Rightarrow> int list" where
  "py_range n = map int [0..<n]"

section \<open>The board (board.py, class Hitori)\<close>

text \<open>
  An instance holds the single field \<open>lines\<close>, a tuple of strings. Instances are only
  made by \<open>Hitori.__init__\<close>, modelled by \<open>Hitori\<close> below, which may fail.
\<close>

datatype hitori = Board (lines: "string list")

definition BLANK :: char where
  "BLANK = CHR ''#''"

text \<open>
  \<open>__init__\<close>: \<open>assert all(len(l) == len(lines[0]) for l in lines)\<close>. With no line at
  all the generator is empty and \<open>lines[0]\<close> is never evaluated.
\<close>

definition Hitori :: "string list \<Rightarrow> error + hitori" where
  "Hitori ls = (if list_all (\<lambda>l. length l = length (ls ! 0)) ls then Inr (Board ls) else Inl AssertionError)"

text \<open>\<open>__getitem__\<close>: \<open>self.lines[y][x]\<close>.\<close>

definition getitem :: "hitori \<Rightarrow> int \<times> int \<Rightarrow> error + char" where
  "getitem b coord =
     (case coord of (x, y) \<Rightarrow>
        (case py_getitem (lines b) y of Inl e \<Rightarrow> Inl e | Inr l \<Rightarrow> py_getitem l x))"

text \<open>\<open>size\<close>: \<open>len(self.lines[0]), len(self.lines)\<close>.\<close>

definition size_b :: "hitori \<Rightarrow> error + nat \<times> nat" where
  "size_b b = (case py_getitem (lines b) 0 of Inl e \<Rightarrow> Inl e | Inr l0 \<Rightarrow> Inr (length l0, length (lines b)))"

definition row :: "hitori \<Rightarrow> int \<Rightarrow> error + (int \<times> int) list" where
  "row b y = (case py_getitem (lines b) 0 of Inl e \<Rightarrow> Inl e | Inr l0 \<Rightarrow> Inr (map (\<lambda>x. (x, y)) (py_range (length l0))))"

definition col :: "hitori \<Rightarrow> int \<Rightarrow> error + (int \<times> int) list" where
  "col b x = Inr (map (\<lambda>y. (x, y)) (py_range (length (lines b))))"

text \<open>
  \<open>is_blank\<close>: the chained comparisons and the \<open>and\<close> short-circuit from left to
  right, so \<open>self.lines[0]\<close> is only read once \<open>0 <= x\<close> holds.
\<close>

definition is_blank :: "hitori \<Rightarrow> int \<Rightarrow> int \<Rightarrow> error + bool" where
  "is_blank b x y =
     (if \<not> 0 \<le> x then Inr False
      else case py_getitem (lines b) 0 of Inl e \<Rightarrow> Inl e
      | Inr l0 \<Rightarrow>
          if \<not> x < int (length l0) then Inr False
          else if \<not> (0 \<le> y \<and> y < int (length (lines b))) then Inr False
          else case getitem b (x, y) of Inl e \<Rightarrow> Inl e | Inr c \<Rightarrow> Inr (c = BLANK))"

text \<open>Python's \<open>or\<close> over calls that may raise: the right operand runs only after a false left one.\<close>

definition or_else :: "error + bool \<Rightarrow> (error + bool) \<Rightarrow> error + bool" where
  "or_else a b = (case a of Inl e \<Rightarrow> Inl e | Inr t \<Rightarrow> if t then Inr True else b)"

text \<open>
  \<open>blank\<close>: the neighbour test, then a copy of the lines with line \<open>y\<close> rebuilt from two
  slices around the blank, then a new instance through \<open>__init__\<close>.
\<close>

definition blank :: "hitori \<Rightarrow> int \<Rightarrow> int \<Rightarrow> error + hitori" where
  "blank b x y =
     (case or_else (is_blank b (x - 1) y) (or_else (is_blank b (x + 1) y)
             (or_else (is_blank b x (y - 1)) (is_blank b x (y + 1)))) of
        Inl e \<Rightarrow> Inl e
      | Inr adjacent \<Rightarrow>
          if adjacent then Inl ValueError
          else case py_getitem (lines b) y of Inl e \<Rightarrow> Inl e
          | Inr l \<Rightarrow>
              (case py_setitem (lines b) y (slice_to l x @ [BLANK] @ slice_from l (x + 1)) of
                 Inl e \<Rightarrow> Inl e
               | Inr ls \<Rightarrow> Hitori ls))"

text \<open>
  A method call seen from the caller: the receiver after the call, and the outcome.
  \<open>blank\<close> works on \<open>list(self.lines)\<close>, a copy, and never assigns to \<open>self.lines\<close>.
\<close>

definition blank_call :: "hitori \<Rightarrow> int \<Rightarrow> int \<Rightarrow> hitori \<times> (error + hitori)" where
  "blank_call self x y = (self, blank self x y)"

text \<open>\<open>__eq__\<close> between two instances: \<open>other.lines == self.lines\<close>.\<close>

definition eq_b :: "hitori \<Rightarrow> hitori \<Rightarrow> bool" where
  "eq_b self other = (lines other = lines self)"

text \<open>A board as the constructor lets it through: every line as long as the first.\<close>

definition rectangular :: "hitori \<Rightarrow> bool" where
  "rectangular b = list_all (\<lambda>l. length l = length (lines b ! 0)) (lines b)"

text \<open>In-range coordinates: \<open>0 <= x < width\<close> and \<open>0 <= y < height\<close>.\<close>

definition in_range :: "hitori \<Rightarrow> int \<Rightarrow> int \<Rightarrow> bool" where
  "in_range b x y = (lines b \<noteq> [] \<and> 0 \<le> x \<and> x < int (length (lines b ! 0)) \<and> 0 \<le> y \<and> y < int (length (lines b)))"

text \<open>
  The grid coordinates in the order of the generator of \<open>check_connectedness\<close>:
  \<open>for y in range(my) for x in range(mx)\<close>. Empty when \<open>size\<close> would raise.
\<close>

definition all_cells :: "hitori \<Rightarrow> (int \<times> int) list" where
  "all_cells b = (case size_b b of Inl e \<Rightarrow> [] | Inr (mx, my) \<Rightarrow>
      concat (map (\<lambda>y. map (\<lambda>x. (x, y)) (py_range mx)) (py_range my)))"

text \<open>\<open>is_blank\<close> returned true.\<close>

definition blank_at :: "hitori \<Rightarrow> int \<times> int \<Rightarrow> bool" where
  "blank_at b c = (is_blank b (fst c) (snd c) = Inr True)"

text \<open>
  The adjacency invariant: no blank cell has a blank cell to its right or below it
  (which covers every orthogonally adjacent pair once).
\<close>

definition no_adjacent_blanks :: "hitori \<Rightarrow> bool" where
  "no_adjacent_blanks b =
     list_all (\<lambda>(x, y). blank_at b (x, y) \<longrightarrow> \<not> blank_at b (x + 1, y) \<and> \<not> blank_at b (x, y + 1)) (all_cells b)"

section \<open>The union-find structure (union_find.py, class UnionFind)\<close>

text \<open>
  The only field is the dictionary \<open>leaders\<close>, from a key to the pair of a leader and a
  count. A key is any Python value that can be a dictionary key, and Python's \<open>None\<close> is
  one: a key is \<open>Some v\<close> for a value \<open>v\<close>, or \<open>None\<close> for Python's \<open>None\<close>. \<open>find\<close> returns
  \<open>None\<close> in place of a leader for an absent key, and \<open>union\<close> tests the leaders it found with
  \<open>is None\<close>, whether they stand for an absent key or are the key \<open>None\<close> itself.
\<close>

type_synonym 'a leaders = "'a \<rightharpoonup> 'a \<times> nat"

type_synonym 'a key = "'a option"

text \<open>
  The outcome of a method that may raise or loop: \<open>None\<close> when it does not return,
  \<open>Some (Inl e)\<close> when it raises \<open>e\<close>, \<open>Some (Inr v)\<close> when it returns \<open>v\<close>. \<open>then_do\<close> runs
  the next statement on a returned value.
\<close>

definition then_do :: "(error + 'a) option \<Rightarrow> ('a \<Rightarrow> (error + 'b) option) \<Rightarrow> (error + 'b) option" where
  "then_do r f = (case r of None \<Rightarrow> None | Some (Inl e) \<Rightarrow> Some (Inl e) | Some (Inr a) \<Rightarrow> f a)"

text \<open>
  \<open>__init__\<close>: \<open>{m: (m, 1) for m in members}\<close>, the entries inserted in the order of
  \<open>members\<close>.
\<close>

definition UnionFind :: "'a list \<Rightarrow> 'a leaders" where
  "UnionFind members = foldl (\<lambda>d m. d(m \<mapsto> (m, 1))) Map.empty members"

text \<open>
  The \<open>while True\<close> loop of \<open>find\<close>, entered with \<open>q, n = self.leaders[p]\<close>. Each round
  stores the entry of \<open>q\<close> at \<open>p\<close>, then moves on with \<open>p, (q, n) = q, self.leaders[q]\<close>.
  The loop has no bound: on a cycle of leader links it does not return.
\<close>

partial_function (option) find_loop ::
  "'a leaders \<Rightarrow> 'a \<Rightarrow> 'a \<Rightarrow> nat \<Rightarrow> (error + 'a leaders \<times> 'a \<times> nat) option" where
  "find_loop leaders p q n =
     (if p = q then Some (Inr (leaders, p, n))
      else case leaders q of None \<Rightarrow> Some (Inl KeyError)
      | Some e \<Rightarrow>
          (let leaders' = leaders(p \<mapsto> e)
           in case leaders' q of None \<Rightarrow> Some (Inl KeyError)
              | Some (q', n') \<Rightarrow> find_loop leaders' q q' n'))"

text \<open>
  \<open>find\<close> returns the dictionary as it leaves it, with the pair \<open>(leader, count)\<close>;
  \<open>(None, 0)\<close> for a key that is not in the dictionary.
\<close>

definition find_uf :: "'a key leaders \<Rightarrow> 'a key \<Rightarrow> (error + 'a key leaders \<times> 'a key \<times> nat) option" where
  "find_uf leaders p =
     (case leaders p of None \<Rightarrow> Some (Inr (leaders, None, 0))
      | Some (q, n) \<Rightarrow> find_loop leaders p q n)"

text \<open>
  \<open>union\<close>: both finds run before the test \<open>p_lead is None or q_lead is None\<close>, which
  returns at once; it is true of an absent key and also of a class whose leader is the
  key \<open>None\<close>. The chained assignment stores the same pair at \<open>p_lead\<close> and then at
  \<open>q_lead\<close>.
\<close>

definition union_uf :: "'a key leaders \<Rightarrow> 'a key \<Rightarrow> 'a key \<Rightarrow> (error + 'a key leaders) option" where
  "union_uf leaders p q =
     then_do (find_uf leaders p) (\<lambda>(leaders1, p_lead, p_num).
     then_do (find_uf leaders1 q) (\<lambda>(leaders2, q_lead, q_num).
       if p_lead = None \<or> q_lead = None then Some (Inr leaders2)
       else if p_lead \<noteq> q_lead then
         Some (Inr (leaders2(p_lead \<mapsto> (q_lead, p_num + q_num), q_lead \<mapsto> (q_lead, p_num + q_num))))
       else Some (Inr leaders2)))"

text \<open>
  \<open>connected\<close>: \<open>self.find(p) == self.find(q)\<close>, an equality of two (leader, count)
  pairs, the left call first.
\<close>

definition connected :: "'a key leaders \<Rightarrow> 'a key \<Rightarrow> 'a key \<Rightarrow> (error + 'a key leaders \<times> bool) option" where
  "connected leaders p q =
     then_do (find_uf leaders p) (\<lambda>(leaders1, fp).
     then_do (find_uf leaders1 q) (\<lambda>(leaders2, fq). Some (Inr (leaders2, fp = fq))))"

text \<open>
  A sequence of method calls on one structure, each on the dictionary the last one
  left; and a sequence of \<open>union\<close> calls alone.
\<close>

datatype 'a call = Find 'a | Union 'a 'a | Connected 'a 'a

fun apply_call :: "'a key leaders \<Rightarrow> 'a key call \<Rightarrow> (error + 'a key leaders) option" where
  "apply_call m (Find p) = then_do (find_uf m p) (\<lambda>(m', res). Some (Inr m'))"
| "apply_call m (Union p q) = union_uf m p q"
| "apply_call m (Connected p q) = then_do (connected m p q) (\<lambda>(m', res). Some (Inr m'))"

fun apply_calls :: "'a key leaders \<Rightarrow> 'a key call list \<Rightarrow> (error + 'a key leaders) option" where
  "apply_calls m [] = Some (Inr m)"
| "apply_calls m (c # cs) = then_do (apply_call m c) (\<lambda>m'. apply_calls m' cs)"

fun unions :: "'a key leaders \<Rightarrow> ('a key \<times> 'a key) list \<Rightarrow> (error + 'a key leaders) option" where
  "unions m [] = Some (Inr m)"
| "unions m ((p, q) # ps) = then_do (union_uf m p q) (\<lambda>m'. unions m' ps)"

subsection \<open>What the dictionary represents\<close>

text \<open>
  \<open>root_of m k r\<close>: following the stored leader links from \<open>k\<close> reaches \<open>r\<close>, a key that
  maps to itself. \<open>visits m k p\<close>: the walk from \<open>k\<close> along the links passes \<open>p\<close>.
\<close>

inductive root_of :: "'a leaders \<Rightarrow> 'a \<Rightarrow> 'a \<Rightarrow> bool" for m :: "'a leaders" where
  root: "m k = Some (k, n) \<Longrightarrow> root_of m k k"
| link: "m k = Some (q, n) \<Longrightarrow> q \<noteq> k \<Longrightarrow> root_of m q r \<Longrightarrow> root_of m k r"

inductive visits :: "'a leaders \<Rightarrow> 'a \<Rightarrow> 'a \<Rightarrow> bool" for m :: "'a leaders" where
  here: "visits m k k"
| onward: "m k = Some (q, n) \<Longrightarrow> q \<noteq> k \<Longrightarrow> visits m q p \<Longrightarrow> visits m k p"

text \<open>
  The dictionary after a walk from \<open>p\<close> in which every key passed has taken over the
  entry of its leader.
\<close>

definition halved :: "'a leaders \<Rightarrow> 'a \<Rightarrow> 'a leaders" where
  "halved m p = (\<lambda>k. if visits m p k then (case m k of None \<Rightarrow> None | Some (q, n) \<Rightarrow> m q) else m k)"

text \<open>
  The invariant of the data model: finitely many keys, every key reaches a
  representative, and the count stored at a representative is the number of keys that
  reach it.
\<close>

definition uf_inv :: "'a leaders \<Rightarrow> bool" where
  "uf_inv m \<longleftrightarrow> finite (dom m) \<and> (\<forall>k \<in> dom m. \<exists>r. root_of m k r)
     \<and> (\<forall>r n. m r = Some (r, n) \<longrightarrow> n = card {k. root_of m k r})"

definition same_class :: "'a leaders \<Rightarrow> 'a \<Rightarrow> 'a \<Rightarrow> bool" where
  "same_class m a b \<longleftrightarrow> (\<exists>r. root_of m a r \<and> root_of m b r)"

text \<open>
  The reference relation: the pairs passed to \<open>union\<close> with both keys in \<open>K\<close>, closed
  under reflexivity, symmetry and transitivity.
\<close>

definition united :: "'a set \<Rightarrow> ('a \<times> 'a) list \<Rightarrow> ('a \<times> 'a) set" where
  "united K ps = {(a, b). (a, b) \<in> set ps \<and> a \<in> K \<and> b \<in> K}"

definition same_component :: "'a set \<Rightarrow> ('a \<times> 'a) list \<Rightarrow> 'a \<Rightarrow> 'a \<Rightarrow> bool" where
  "same_component K ps a b \<longleftrightarrow> (a, b) \<in> (united K ps \<union> (united K ps)\<inverse>)\<^sup>*"

section \<open>The search (board.py, solve and its generators)\<close>

text \<open>
  \<open>row_n(n)\<close> and \<open>col_n(n)\<close>: a selector picks the coordinates of one row or column of
  the board it is given. The index comes from \<open>range(my)\<close> or \<open>range(mx)\<close>, a natural
  number.
\<close>

datatype selector = Row_n nat | Col_n nat

fun select :: "selector \<Rightarrow> hitori \<Rightarrow> error + (int \<times> int) list" where
  "select (Row_n n) board = row board (int n)"
| "select (Col_n n) board = col board (int n)"

text \<open>
  The entries of the list \<open>gens\<close>: \<open>partial(blank_some, selector)\<close>,
  \<open>check_connectedness\<close> and \<open>partial(collect_candidate, answers)\<close>.
\<close>

datatype generator = Blank_some selector | Check_connectedness | Collect_candidate

text \<open>
  \<open>counts = defaultdict(list)\<close> keeps its keys in the order of their first insertion:
  an association list. \<open>counts[k].append(v)\<close> extends the entry of \<open>k\<close>, or adds one at the
  end.
\<close>

fun append_at :: "('k \<times> 'v list) list \<Rightarrow> 'k \<Rightarrow> 'v \<Rightarrow> ('k \<times> 'v list) list" where
  "append_at [] k v = [(k, [v])]"
| "append_at ((k', vs) # rest) k v =
     (if k' = k then (k', vs @ [v]) # rest else (k', vs) # append_at rest k v)"

text \<open>
  The first loop of \<open>blank_some\<close>: the cells that are not blank, grouped by value.
\<close>

fun group_cells :: "hitori \<Rightarrow> (int \<times> int) list \<Rightarrow> (char \<times> (int \<times> int) list) list
    \<Rightarrow> error + (char \<times> (int \<times> int) list) list" where
  "group_cells board [] counts = Inr counts"
| "group_cells board ((x, y) # cells) counts =
     (case is_blank board x y of Inl e \<Rightarrow> Inl e
      | Inr blanked \<Rightarrow>
          if \<not> blanked then
            (case getitem board (x, y) of Inl e \<Rightarrow> Inl e
             | Inr v \<Rightarrow> group_cells board cells (append_at counts v (x, y)))
          else group_cells board cells counts)"

text \<open>
  The two inner loops of \<open>blank_some\<close>: blank every cell of the group but one, or every
  cell. \<open>except ValueError: break\<close> leaves the loop without running its \<open>else\<close>, which is
  the result \<open>None\<close>; any other exception goes on to the caller.
\<close>

fun blank_others :: "hitori \<Rightarrow> int \<times> int \<Rightarrow> (int \<times> int) list \<Rightarrow> error + hitori option" where
  "blank_others b2 keep [] = Inr (Some b2)"
| "blank_others b2 keep ((x2, y2) # rest) =
     (if (x2, y2) \<noteq> keep then
        (case blank b2 x2 y2 of
           Inl e \<Rightarrow> if e = ValueError then Inr None else Inl e
         | Inr b3 \<Rightarrow> blank_others b3 keep rest)
      else blank_others b2 keep rest)"

fun blank_all :: "hitori \<Rightarrow> (int \<times> int) list \<Rightarrow> error + hitori option" where
  "blank_all b2 [] = Inr (Some b2)"
| "blank_all b2 ((x, y) # rest) =
     (case blank b2 x y of
        Inl e \<Rightarrow> if e = ValueError then Inr None else Inl e
      | Inr b3 \<Rightarrow> blank_all b3 rest)"

text \<open>
  A \<open>for\<close> loop whose body updates the set of answers and may raise or not return.
\<close>

fun for_each :: "'a list \<Rightarrow> 's \<Rightarrow> ('a \<Rightarrow> 's \<Rightarrow> (error + 's) option) \<Rightarrow> (error + 's) option" where
  "for_each [] s body = Some (Inr s)"
| "for_each (x # xs) s body = then_do (body x s) (\<lambda>s'. for_each xs s' body)"

text \<open>
  \<open>check_connectedness\<close> iterates over a Python set. Its iteration order is not fixed by
  the language, so it is a parameter: from the sequence of insertions to the order of
  iteration.
\<close>

type_synonym set_order = "(int \<times> int) list \<Rightarrow> (int \<times> int) list"

text \<open>
  The generator expression of \<open>check_connectedness\<close>, over the coordinates \<open>for y in
  range(my) for x in range(mx)\<close>.
\<close>

definition grid :: "nat \<Rightarrow> nat \<Rightarrow> (int \<times> int) list" where
  "grid mx my = concat (map (\<lambda>y. map (\<lambda>x. (x, y)) (py_range mx)) (py_range my))"

fun nonblank_cells :: "hitori \<Rightarrow> (int \<times> int) list \<Rightarrow> error + (int \<times> int) list" where
  "nonblank_cells board [] = Inr []"
| "nonblank_cells board ((x, y) # rest) =
     (case is_blank board x y of Inl e \<Rightarrow> Inl e
      | Inr blanked \<Rightarrow>
          (case nonblank_cells board rest of Inl e \<Rightarrow> Inl e
           | Inr cs \<Rightarrow> Inr (if \<not> blanked then (x, y) # cs else cs)))"

text \<open>
  The loop over the cells: four unions each, with whatever key the neighbour is. The
  keys are the coordinate pairs, Python values that are not \<open>None\<close>.
\<close>

fun connect_cells :: "(int \<times> int) key leaders \<Rightarrow> (int \<times> int) list
    \<Rightarrow> (error + (int \<times> int) key leaders) option" where
  "connect_cells uf [] = Some (Inr uf)"
| "connect_cells uf ((x, y) # cells) =
     then_do (union_uf uf (Some (x, y)) (Some (x - 1, y))) (\<lambda>uf.
     then_do (union_uf uf (Some (x, y)) (Some (x + 1, y))) (\<lambda>uf.
     then_do (union_uf uf (Some (x, y)) (Some (x, y - 1))) (\<lambda>uf.
     then_do (union_uf uf (Some (x, y)) (Some (x, y + 1))) (\<lambda>uf.
     connect_cells uf cells))))"

text \<open>
  The test of \<open>check_connectedness\<close>: \<open>some_x, some_y\<close> is the last cell of the iteration;
  the function returns early when \<open>n != len(cells)\<close>, and an empty set of cells passes.
\<close>

definition connectedness_holds :: "set_order \<Rightarrow> hitori \<Rightarrow> (error + bool) option" where
  "connectedness_holds iteration board =
     (case size_b board of Inl e \<Rightarrow> Some (Inl e)
      | Inr (mx, my) \<Rightarrow>
          (case nonblank_cells board (grid mx my) of
             Inl e \<Rightarrow> Some (Inl e)
           | Inr generated \<Rightarrow>
               (let cells = iteration generated in
                if length cells > 0 then
                  then_do (connect_cells (UnionFind (map Some cells)) cells) (\<lambda>uf.
                  then_do (find_uf uf (Some (last cells))) (\<lambda>(uf, lead, n).
                    Some (Inr (\<not> n \<noteq> length cells))))
                else Some (Inr True))))"

subsection \<open>Measures and predicates for the search\<close>

text \<open>
  The number of cells that are not blank, which every recursive call of \<open>blank_some\<close>
  on a new board decreases; a cell inside its line that is not blank; the cells of all
  groups.
\<close>

definition solid :: "hitori \<Rightarrow> nat" where
  "solid b = sum_list (map (\<lambda>l. length (filter (\<lambda>c. c \<noteq> BLANK) l)) (lines b))"

definition cell_solid :: "hitori \<Rightarrow> int \<times> int \<Rightarrow> bool" where
  "cell_solid b c = (case c of (x, y) \<Rightarrow>
     0 \<le> y \<and> y < int (length (lines b)) \<and> 0 \<le> x \<and> x < int (length (lines b ! nat y))
     \<and> lines b ! nat y ! nat x \<noteq> BLANK)"

definition grouped :: "('k \<times> 'v list) list \<Rightarrow> 'v list" where
  "grouped counts = concat (map snd counts)"

definition grouping_ok :: "hitori \<Rightarrow> (int \<times> int) list \<Rightarrow> (int \<times> int) list \<Rightarrow> (int \<times> int) list \<Rightarrow> bool" where
  "grouping_ok board cells before after \<longleftrightarrow>
     set after \<subseteq> set before \<union> set cells
     \<and> (distinct (before @ cells) \<longrightarrow> distinct after)
     \<and> (\<forall>c \<in> set cells. is_blank board (fst c) (snd c) = Inr True
            \<or> (is_blank board (fst c) (snd c) = Inr False \<and> (\<exists>v. getitem board c = Inr v)))
     \<and> (\<forall>c \<in> set after. c \<in> set before \<or> is_blank board (fst c) (snd c) = Inr False)"

definition stored :: "('k \<times> 'v list) list \<Rightarrow> 'k \<Rightarrow> 'v set" where
  "stored counts k = {c. \<exists>wh. (k, wh) \<in> set counts \<and> c \<in> set wh}"

text \<open>
  An iteration order of a set: each element once.
\<close>

definition valid_order :: "set_order \<Rightarrow> bool" where
  "valid_order iteration \<longleftrightarrow> (\<forall>xs. distinct (iteration xs) \<and> set (iteration xs) = set xs)"

text \<open>
  Orthogonal adjacency inside a set of coordinates, and a set that is one region under
  it; the pairs that \<open>check_connectedness\<close> passes to \<open>union\<close>.
\<close>

definition neighbours_in :: "(int \<times> int) set \<Rightarrow> ((int \<times> int) \<times> (int \<times> int)) set" where
  "neighbours_in K = {((x, y), (x', y')). (x, y) \<in> K \<and> (x', y') \<in> K
      \<and> ((x' = x - 1 \<and> y' = y) \<or> (x' = x + 1 \<and> y' = y) \<or> (x' = x \<and> y' = y - 1) \<or> (x' = x \<and> y' = y + 1))}"

definition connected_set :: "(int \<times> int) set \<Rightarrow> bool" where
  "connected_set K \<longleftrightarrow> (\<forall>c1 \<in> K. \<forall>c2 \<in> K. (c1, c2) \<in> (neighbours_in K)\<^sup>*)"

definition neighbour_pairs :: "(int \<times> int) list \<Rightarrow> ((int \<times> int) \<times> (int \<times> int)) list" where
  "neighbour_pairs cells = concat (map (\<lambda>(x, y).
      [((x, y), (x - 1, y)), ((x, y), (x + 1, y)), ((x, y), (x, y - 1)), ((x, y), (x, y + 1))]) cells)"

text \<open>
  The three conditions of a solved board: no row and no column holds a symbol twice
  among its cells that are not blank (\<open>symbols_unique\<close>), no two blank cells are adjacent
  (\<open>no_adjacent_blanks\<close>, above), and the cells that are not blank form one region
  (\<open>region_connected\<close>).
\<close>

definition nonblank :: "hitori \<Rightarrow> (int \<times> int) set" where
  "nonblank b = {c. in_range b (fst c) (snd c) \<and> \<not> blank_at b c}"

definition region_connected :: "hitori \<Rightarrow> bool" where
  "region_connected b = connected_set (nonblank b)"

definition symbols_unique :: "hitori \<Rightarrow> bool" where
  "symbols_unique b \<longleftrightarrow>
     (\<forall>x1 y1 x2 y2. in_range b x1 y1 \<and> in_range b x2 y2 \<and> (x1, y1) \<noteq> (x2, y2) \<and> (x1 = x2 \<or> y1 = y2)
        \<and> \<not> blank_at b (x1, y1) \<and> \<not> blank_at b (x2, y2)
        \<longrightarrow> getitem b (x1, y1) \<noteq> getitem b (x2, y2))"

text \<open>
  A well-formed input: rectangular, and no line contains the BLANK character.
\<close>

definition well_formed :: "hitori \<Rightarrow> bool" where
  "well_formed b \<longleftrightarrow> rectangular b \<and> list_all (\<lambda>l. BLANK \<notin> set l) (lines b)"

text \<open>
  What the proofs carry through the search: a board that is rectangular, has a line and
  has no two adjacent blanks; a board that differs from another by more blanks only; a
  line without a repeated symbol; the stages a list may end with; what a board that went
  through a list of stages satisfies; and stages whose row or column exists.
\<close>

definition good :: "hitori \<Rightarrow> bool" where
  "good b \<longleftrightarrow> rectangular b \<and> lines b \<noteq> [] \<and> no_adjacent_blanks b"

definition extends :: "hitori \<Rightarrow> hitori \<Rightarrow> bool" where
  "extends b b' \<longleftrightarrow> length (lines b') = length (lines b) \<and> length (lines b' ! 0) = length (lines b ! 0)
     \<and> (\<forall>x y. in_range b x y \<and> \<not> blank_at b' (x, y)
            \<longrightarrow> \<not> blank_at b (x, y) \<and> getitem b' (x, y) = getitem b (x, y))"

definition line_clean :: "hitori \<Rightarrow> (int \<times> int) list \<Rightarrow> bool" where
  "line_clean b cells \<longleftrightarrow>
     (\<forall>c1 \<in> set cells. \<forall>c2 \<in> set cells.
        c1 \<noteq> c2 \<and> in_range b (fst c1) (snd c1) \<and> in_range b (fst c2) (snd c2)
        \<and> \<not> blank_at b c1 \<and> \<not> blank_at b c2 \<longrightarrow> getitem b c1 \<noteq> getitem b c2)"

fun tail_ok :: "generator list \<Rightarrow> bool" where
  "tail_ok [] = True"
| "tail_ok (Blank_some sel # gs) = tail_ok gs"
| "tail_ok (Check_connectedness # gs) = (gs = [Collect_candidate] \<or> gs = [])"
| "tail_ok (Collect_candidate # gs) = (gs = [])"

definition guarantees :: "generator list \<Rightarrow> hitori \<Rightarrow> bool" where
  "guarantees stages b \<longleftrightarrow>
     (\<forall>sel cells. Blank_some sel \<in> set stages \<longrightarrow> select sel b = Inr cells \<longrightarrow> line_clean b cells)
     \<and> (Check_connectedness \<in> set stages \<longrightarrow> region_connected b)"

definition sound_result :: "generator list \<Rightarrow> hitori \<Rightarrow> hitori set \<Rightarrow> hitori set \<Rightarrow> bool" where
  "sound_result stages board answers S \<longleftrightarrow>
     (\<forall>b' \<in> S. b' \<in> answers \<or> (good b' \<and> extends board b' \<and> guarantees stages b'
         \<and> ((\<forall>sel. Blank_some sel \<notin> set stages) \<longrightarrow> b' = board)))"

fun stage_fits :: "hitori \<Rightarrow> generator \<Rightarrow> bool" where
  "stage_fits b (Blank_some (Row_n n)) = (n < length (lines b))"
| "stage_fits b (Blank_some (Col_n n)) = (n < length (lines b ! 0))"
| "stage_fits b Check_connectedness = True"
| "stage_fits b Collect_candidate = True"

section \<open>Facts about sequences and the board\<close>

lemma norm_index_in: "0 \<le> i \<Longrightarrow> i < int n \<Longrightarrow> norm_index n i = Some (nat i)"
  by (simp add: norm_index_def)

lemma rectangular_nth: "rectangular b \<Longrightarrow> j < length (lines b) \<Longrightarrow> length (lines b ! j) = length (lines b ! 0)"
  by (simp add: rectangular_def list_all_length)

lemma py_getitem_in: "0 \<le> i \<Longrightarrow> i < int (length xs) \<Longrightarrow> py_getitem xs i = Inr (xs ! nat i)"
  by (simp add: py_getitem_def norm_index_in)

lemma is_blank_rect:
  assumes "rectangular b" "lines b \<noteq> []"
  shows "is_blank b x y = Inr (in_range b x y \<and> lines b ! nat y ! nat x = BLANK)"
proof -
  have g0: "py_getitem (lines b) 0 = Inr (lines b ! 0)"
    using assms(2) by (simp add: py_getitem_in)
  show ?thesis
  proof (cases "in_range b x y")
    case True
    then have y: "0 \<le> y" "y < int (length (lines b))" and x: "0 \<le> x" "x < int (length (lines b ! 0))"
      by (simp_all add: in_range_def)
    from y have "nat y < length (lines b)" by simp
    with assms have "length (lines b ! nat y) = length (lines b ! 0)" by (intro rectangular_nth)
    with x y True show ?thesis
      by (simp add: is_blank_def g0 getitem_def py_getitem_in)
  next
    case False
    with assms(2) have "\<not> 0 \<le> x \<or> \<not> x < int (length (lines b ! 0)) \<or> \<not> (0 \<le> y \<and> y < int (length (lines b)))"
      unfolding in_range_def by blast
    with False show ?thesis
      unfolding is_blank_def g0 by auto
  qed
qed

lemma blank_rect:
  assumes r: "rectangular b" and i: "in_range b x y"
  shows "blank b x y =
    (if (in_range b (x - 1) y \<and> lines b ! nat y ! nat (x - 1) = BLANK)
       \<or> (in_range b (x + 1) y \<and> lines b ! nat y ! nat (x + 1) = BLANK)
       \<or> (in_range b x (y - 1) \<and> lines b ! nat (y - 1) ! nat x = BLANK)
       \<or> (in_range b x (y + 1) \<and> lines b ! nat (y + 1) ! nat x = BLANK)
     then Inl ValueError
     else Inr (Board ((lines b)[nat y := (lines b ! nat y)[nat x := BLANK]])))"
proof -
  from i have ne: "lines b \<noteq> []" and y: "0 \<le> y" "y < int (length (lines b))"
    and x: "0 \<le> x" "x < int (length (lines b ! 0))"
    by (simp_all add: in_range_def)
  from y have ny: "nat y < length (lines b)" by simp
  with r have len: "length (lines b ! nat y) = length (lines b ! 0)" by (intro rectangular_nth)
  let ?l = "lines b ! nat y"
  from x len have nx: "nat x < length ?l" by simp
  have upd: "slice_to ?l x @ [BLANK] @ slice_from ?l (x + 1) = ?l[nat x := BLANK]"
    using x nx by (simp add: slice_to_def slice_from_def upd_conv_take_nth_drop nat_add_distrib)
  have rect': "Hitori ((lines b)[nat y := ?l[nat x := BLANK]]) = Inr (Board ((lines b)[nat y := ?l[nat x := BLANK]]))"
  proof -
    let ?ls = "(lines b)[nat y := ?l[nat x := BLANK]]"
    have "length (?ls ! j) = length (lines b ! 0)" if "j < length (lines b)" for j
      using that r len rectangular_nth[of b j] by (cases "j = nat y") simp_all
    moreover have "0 < length (lines b)" using ne by simp
    ultimately have "\<forall>j < length ?ls. length (?ls ! j) = length (?ls ! 0)"
      by (metis length_list_update)
    then have "list_all (\<lambda>l. length l = length (?ls ! 0)) ?ls"
      unfolding list_all_length by blast
    then show ?thesis unfolding Hitori_def by (simp only: if_True)
  qed
  have gy: "py_getitem (lines b) y = Inr ?l"
    using y by (simp add: py_getitem_def norm_index_in)
  have sy: "py_setitem (lines b) y v = Inr ((lines b)[nat y := v])" for v
    using y by (simp add: py_setitem_def norm_index_in)
  show ?thesis
    unfolding blank_def is_blank_rect[OF r ne] or_else_def gy sy upd rect'
    by (simp add: upd[simplified] rect')
qed

lemma set_py_range: "set (py_range n) = {i. 0 \<le> i \<and> i < int n}"
proof -
  have "i \<in> int ` {0..<n}" if "0 \<le> i" "i < int n" for i
    using that by (intro image_eqI[where x = "nat i"]) simp_all
  then show ?thesis by (auto simp add: py_range_def)
qed

lemma set_cells: "lines b \<noteq> [] \<Longrightarrow> set (all_cells b) = {(x, y). in_range b x y}"
  by (auto simp add: all_cells_def size_b_def py_getitem_in set_py_range in_range_def)

lemma blank_at_in_range: "rectangular b \<Longrightarrow> blank_at b (x, y) \<Longrightarrow> in_range b x y"
proof (cases "lines b = []")
  case True
  then have "is_blank b x y \<noteq> Inr True"
    by (simp add: is_blank_def py_getitem_def norm_index_def)
  then show "blank_at b (x, y) \<Longrightarrow> in_range b x y" by (simp add: blank_at_def)
next
  case False
  then show "rectangular b \<Longrightarrow> blank_at b (x, y) \<Longrightarrow> in_range b x y"
    by (simp add: blank_at_def is_blank_rect)
qed

lemma no_adjacent_blanksD:
  assumes r: "rectangular b" and n: "no_adjacent_blanks b" and b: "blank_at b (x, y)"
  shows "\<not> blank_at b (x + 1, y)" "\<not> blank_at b (x, y + 1)"
    "\<not> blank_at b (x - 1, y)" "\<not> blank_at b (x, y - 1)"
proof -
  have step: "\<not> blank_at b (u + 1, v) \<and> \<not> blank_at b (u, v + 1)" if "blank_at b (u, v)" for u v
  proof -
    from that r have i: "in_range b u v" by (rule blank_at_in_range[rotated])
    then have "lines b \<noteq> []" by (simp add: in_range_def)
    with i have "(u, v) \<in> set (all_cells b)" by (simp add: set_cells)
    with n that show ?thesis unfolding no_adjacent_blanks_def list_all_iff by blast
  qed
  from step[OF b] show "\<not> blank_at b (x + 1, y)" "\<not> blank_at b (x, y + 1)" by simp_all
  show "\<not> blank_at b (x - 1, y)" using step[of "x - 1" y] b by auto
  show "\<not> blank_at b (x, y - 1)" using step[of x "y - 1"] b by auto
qed

lemma blank_rect_lines:
  assumes r: "rectangular b" and i: "in_range b x y" and s: "blank b x y = Inr b2"
  shows "lines b2 = (lines b)[nat y := (lines b ! nat y)[nat x := BLANK]]"
  using s unfolding blank_rect[OF r i] by (simp split: if_splits) auto

lemma blank_rect_rectangular:
  assumes r: "rectangular b" and i: "in_range b x y" and s: "blank b x y = Inr b2"
  shows "rectangular b2"
proof -
  have l: "lines b2 = (lines b)[nat y := (lines b ! nat y)[nat x := BLANK]]"
    using assms by (rule blank_rect_lines)
  from i have ne: "lines b \<noteq> []" and y: "nat y < length (lines b)" by (auto simp add: in_range_def)
  have "length (lines b2 ! j) = length (lines b ! j)" if "j < length (lines b)" for j
    using that unfolding l by (cases "j = nat y") simp_all
  moreover have "0 < length (lines b)" using ne by simp
  ultimately have "length (lines b2 ! j) = length (lines b2 ! 0)" if "j < length (lines b)" for j
    using that rectangular_nth[OF r, of j] by simp
  then show ?thesis unfolding rectangular_def list_all_length l by simp
qed

section \<open>The recursion of the search and its termination\<close>

lemma count_solid_update:
  assumes "i < length l"
  shows "length (filter (\<lambda>c. c \<noteq> BLANK) (l[i := BLANK])) + (if l ! i \<noteq> BLANK then 1 else 0)
     = length (filter (\<lambda>c. c \<noteq> BLANK) l)"
proof -
  have "length (filter (\<lambda>c. c \<noteq> BLANK) (take i l @ [v] @ drop (Suc i) l))
      = length (filter (\<lambda>c. c \<noteq> BLANK) (take i l)) + (if v \<noteq> BLANK then 1 else 0)
        + length (filter (\<lambda>c. c \<noteq> BLANK) (drop (Suc i) l))" for v
    by simp
  from this[of BLANK] this[of "l ! i"] show ?thesis
    using assms by (simp add: upd_conv_take_nth_drop id_take_nth_drop[symmetric])
qed

lemma sum_list_map_update:
  fixes f :: "'a \<Rightarrow> nat"
  assumes "i < length xs"
  shows "sum_list (map f (xs[i := v])) + f (xs ! i) = sum_list (map f xs) + f v"
proof -
  have "sum_list (map f (take i xs @ [w] @ drop (Suc i) xs))
      = sum_list (map f (take i xs)) + f w + sum_list (map f (drop (Suc i) xs))" for w
    by simp
  from this[of v] this[of "xs ! i"] show ?thesis
    using assms by (simp add: upd_conv_take_nth_drop id_take_nth_drop[symmetric])
qed

lemma blank_lines:
  assumes "blank b x y = Inr b2" and "0 \<le> y" and "y < int (length (lines b))"
    and "0 \<le> x" and "x < int (length (lines b ! nat y))"
  shows "lines b2 = (lines b)[nat y := (lines b ! nat y)[nat x := BLANK]]"
proof -
  let ?l = "lines b ! nat y"
  have gy: "py_getitem (lines b) y = Inr ?l" using assms(2,3) by (simp add: py_getitem_in)
  have sy: "py_setitem (lines b) y v = Inr ((lines b)[nat y := v])" for v
    using assms(2,3) by (simp add: py_setitem_def norm_index_in)
  have nx: "nat x < length ?l" using assms(4,5) by simp
  have upd: "slice_to ?l x @ [BLANK] @ slice_from ?l (x + 1) = ?l[nat x := BLANK]"
    using assms(4) nx by (simp add: slice_to_def slice_from_def upd_conv_take_nth_drop nat_add_distrib)
  have "blank b x y =
      (case or_else (is_blank b (x - 1) y) (or_else (is_blank b (x + 1) y)
             (or_else (is_blank b x (y - 1)) (is_blank b x (y + 1)))) of
        Inl e \<Rightarrow> Inl e
      | Inr adjacent \<Rightarrow> if adjacent then Inl ValueError else Hitori ((lines b)[nat y := ?l[nat x := BLANK]]))"
    unfolding blank_def gy sy by (simp add: upd[simplified] cong: sum.case_cong if_cong)
  with assms(1) have "Hitori ((lines b)[nat y := ?l[nat x := BLANK]]) = Inr b2"
    by (simp split: sum.splits if_splits)
  then show ?thesis by (auto simp add: Hitori_def split: if_splits)
qed

lemma blank_solid:
  assumes "blank b x y = Inr b2" and "cell_solid b (x, y)"
  shows "solid b2 < solid b" 
    and "\<And>c. cell_solid b c \<Longrightarrow> c \<noteq> (x, y) \<Longrightarrow> cell_solid b2 c"
proof -
  from assms(2) have r: "0 \<le> y" "y < int (length (lines b))" "0 \<le> x" "x < int (length (lines b ! nat y))"
    and s: "lines b ! nat y ! nat x \<noteq> BLANK" by (simp_all add: cell_solid_def)
  note l = blank_lines[OF assms(1) r]
  let ?l = "lines b ! nat y"
  have ny: "nat y < length (lines b)" and nx: "nat x < length ?l" using r by simp_all
  have "length (filter (\<lambda>c. c \<noteq> BLANK) (?l[nat x := BLANK])) + 1 = length (filter (\<lambda>c. c \<noteq> BLANK) ?l)"
    using count_solid_update[OF nx] s by simp
  moreover have "solid b2 + length (filter (\<lambda>c. c \<noteq> BLANK) ?l)
      = solid b + length (filter (\<lambda>c. c \<noteq> BLANK) (?l[nat x := BLANK]))"
    unfolding solid_def l using sum_list_map_update[OF ny] by blast
  ultimately show "solid b2 < solid b" by linarith
  show "cell_solid b2 c" if c: "cell_solid b c" "c \<noteq> (x, y)" for c
  proof -
    obtain u v where uv: "c = (u, v)" by (cases c)
    from c(1) have cr: "0 \<le> v" "v < int (length (lines b))" "0 \<le> u" "u < int (length (lines b ! nat v))"
      and cs: "lines b ! nat v ! nat u \<noteq> BLANK" by (simp_all add: cell_solid_def uv)
    have nv: "nat v < length (lines b)" using cr by simp
    show ?thesis
    proof (cases "v = y")
      case True
      with c(2) uv have "u \<noteq> x" by simp
      with cr r have "nat u \<noteq> nat x" by simp
      with True cr cs ny show ?thesis by (simp add: cell_solid_def uv l)
    next
      case False
      with cr r have "nat v \<noteq> nat y" by simp
      with cr cs show ?thesis by (simp add: cell_solid_def uv l)
    qed
  qed
qed

lemma blank_all_solid:
  assumes "blank_all b cs = Inr (Some b2)" and "\<forall>c \<in> set cs. cell_solid b c" and "distinct cs"
  shows "solid b2 \<le> solid b \<and> (cs \<noteq> [] \<longrightarrow> solid b2 < solid b)"
  using assms
proof (induction cs arbitrary: b)
  case Nil
  then show ?case by simp
next
  case (Cons c cs)
  obtain x y where c: "c = (x, y)" by (cases c)
  from Cons.prems(1) obtain b3 where b3: "blank b x y = Inr b3" and rest: "blank_all b3 cs = Inr (Some b2)"
    by (auto simp add: c split: sum.splits if_splits)
  from Cons.prems(2) have sc: "cell_solid b (x, y)" by (simp add: c)
  note bs = blank_solid[OF b3 sc]
  have "\<forall>c' \<in> set cs. cell_solid b3 c'"
    using Cons.prems(2,3) bs(2) by (auto simp add: c)
  with Cons.IH[OF rest] Cons.prems(3) have "solid b2 \<le> solid b3" by simp
  with bs(1) show ?case by simp
qed

lemma blank_others_filter: "blank_others b keep cs = blank_all b (filter (\<lambda>c. c \<noteq> keep) cs)"
  by (induction b keep cs rule: blank_others.induct) (auto split: sum.splits)

lemma grouped_append_at:
  "set (grouped (append_at counts k v)) = insert v (set (grouped counts))"
  "distinct (grouped (append_at counts k v)) \<longleftrightarrow> distinct (grouped counts) \<and> v \<notin> set (grouped counts)"
  by (induction counts k v rule: append_at.induct) (auto simp add: grouped_def)

lemma group_cells_grouped:
  "group_cells board cells counts0 = Inr counts \<Longrightarrow> grouping_ok board cells (grouped counts0) (grouped counts)"
proof (induction board cells counts0 rule: group_cells.induct)
  case (1 board counts0)
  then show ?case by (simp add: grouping_ok_def)
next
  case (2 board x y cells counts0)
  from "2.prems" obtain bl where bl: "is_blank board x y = Inr bl"
    by (auto split: sum.splits)
  show ?case
  proof (cases bl)
    case True
    with "2.prems" bl have r: "group_cells board cells counts0 = Inr counts" by simp
    from "2.IH"(2)[OF bl _ r] True have "grouping_ok board cells (grouped counts0) (grouped counts)" by simp
    with True bl show ?thesis unfolding grouping_ok_def by auto
  next
    case False
    with "2.prems" bl obtain v where v: "getitem board (x, y) = Inr v"
      and r: "group_cells board cells (append_at counts0 v (x, y)) = Inr counts"
      by (auto split: sum.splits)
    from "2.IH"(1)[OF bl _ v r] False
    have "grouping_ok board cells (grouped (append_at counts0 v (x, y))) (grouped counts)" by simp
    with False bl v show ?thesis by (auto simp add: grouping_ok_def grouped_append_at)
  qed
qed

lemma distinct_py_range: "distinct (py_range n)"
  by (simp add: py_range_def distinct_map)

lemma grouped_member:
  assumes "(v, wh) \<in> set counts"
  shows "set wh \<subseteq> set (grouped counts)" and "distinct (grouped counts) \<Longrightarrow> distinct wh"
  using assms by (induction counts) (auto simp add: grouped_def)

lemma getitem_nonneg:
  assumes "getitem b (x, y) = Inr v" and "0 \<le> x" and "0 \<le> y"
  shows "y < int (length (lines b))" and "x < int (length (lines b ! nat y))" and "v = lines b ! nat y ! nat x"
proof -
  from assms(1) obtain l where l: "py_getitem (lines b) y = Inr l" and v: "py_getitem l x = Inr v"
    by (auto simp add: getitem_def split: sum.splits)
  from l assms(3) show y: "y < int (length (lines b))"
    by (auto simp add: py_getitem_def norm_index_def split: if_splits)
  with l assms(3) have "l = lines b ! nat y" by (simp add: py_getitem_in)
  moreover from v assms(2) have "x < int (length l)"
    by (auto simp add: py_getitem_def norm_index_def split: if_splits)
  moreover from this v assms(2) have "v = l ! nat x" by (simp add: py_getitem_in)
  ultimately show "x < int (length (lines b ! nat y))" and "v = lines b ! nat y ! nat x" by simp_all
qed

lemma is_blank_True_width:
  assumes "is_blank b x y = Inr True"
  shows "lines b \<noteq> [] \<and> x < int (length (lines b ! 0))"
proof (cases "lines b = []")
  case True
  then have "is_blank b x y \<noteq> Inr True" by (simp add: is_blank_def py_getitem_def norm_index_def)
  with assms show ?thesis by simp
next
  case False
  then have "py_getitem (lines b) 0 = Inr (lines b ! 0)" by (simp add: py_getitem_in)
  with assms False show ?thesis by (auto simp add: is_blank_def split: if_splits)
qed

lemma not_blank_solid:
  assumes f: "is_blank b x y = Inr False" and g: "getitem b (x, y) = Inr v"
    and x: "0 \<le> x" "x < int (length (lines b ! 0))" and y: "0 \<le> y"
  shows "cell_solid b (x, y)"
proof -
  note gn = getitem_nonneg[OF g x(1) y]
  from gn(1) y have ne: "lines b \<noteq> []" by auto
  then have g0: "py_getitem (lines b) 0 = Inr (lines b ! 0)" by (simp add: py_getitem_in)
  from f have "v \<noteq> BLANK"
    unfolding is_blank_def g0 using x y gn(1) g by simp
  with gn x y show ?thesis by (simp add: cell_solid_def)
qed

lemma select_cells:
  assumes "select selector board = Inr cells"
  shows "distinct cells" and "\<forall>c \<in> set cells. 0 \<le> fst c \<and> 0 \<le> snd c"
    and "\<And>n. selector = Row_n n \<Longrightarrow> \<forall>c \<in> set cells. fst c < int (length (lines board ! 0))"
    and "\<And>n. selector = Col_n n \<Longrightarrow> \<forall>c \<in> set cells. fst c = int n \<and> (int n, 0) \<in> set cells"
proof -
  show "distinct cells"
    using assms distinct_py_range
    by (cases selector) (auto simp add: row_def col_def distinct_map inj_on_def split: sum.splits)
  show "\<forall>c \<in> set cells. 0 \<le> fst c \<and> 0 \<le> snd c"
    using assms by (cases selector) (auto simp add: row_def col_def set_py_range split: sum.splits)
  show "\<forall>c \<in> set cells. fst c < int (length (lines board ! 0))" if "selector = Row_n n" for n
    using assms that by (auto simp add: row_def set_py_range py_getitem_def norm_index_def split: sum.splits option.splits if_splits)
  show "\<forall>c \<in> set cells. fst c = int n \<and> (int n, 0) \<in> set cells" if "selector = Col_n n" for n
    using assms that by (auto simp add: col_def set_py_range image_iff)
qed

lemma group_solid:
  assumes sel: "select selector board = Inr cells" and grp: "group_cells board cells [] = Inr counts"
    and mem: "(v, wh) \<in> set counts"
  shows "distinct wh" and "\<forall>c \<in> set wh. cell_solid board c"
proof -
  from group_cells_grouped[OF grp] have ok: "grouping_ok board cells [] (grouped counts)"
    by (simp add: grouped_def)
  note sc = select_cells[OF sel]
  from ok sc(1) have "distinct (grouped counts)" by (simp add: grouping_ok_def)
  then show "distinct wh" using grouped_member(2)[OF mem] by simp
  from ok have processed: "\<forall>c \<in> set cells. is_blank board (fst c) (snd c) = Inr True
            \<or> (is_blank board (fst c) (snd c) = Inr False \<and> (\<exists>v. getitem board c = Inr v))"
    by (simp add: grouping_ok_def)
  have width: "fst c < int (length (lines board ! 0))" if c: "c \<in> set cells" for c
  proof (cases selector)
    case (Row_n n)
    with sc(3) c show ?thesis by blast
  next
    case (Col_n n)
    with sc(4) c have fc: "fst c = int n" and first: "(int n, 0) \<in> set cells" by blast+
    from processed first have "is_blank board (int n) 0 = Inr True
        \<or> (is_blank board (int n) 0 = Inr False \<and> (\<exists>v. getitem board (int n, 0) = Inr v))" by fastforce
    then have "int n < int (length (lines board ! 0))"
    proof
      assume "is_blank board (int n) 0 = Inr True"
      then show ?thesis using is_blank_True_width by blast
    next
      assume "is_blank board (int n) 0 = Inr False \<and> (\<exists>v. getitem board (int n, 0) = Inr v)"
      then obtain v where "getitem board (int n, 0) = Inr v" by blast
      from getitem_nonneg(2)[OF this] show ?thesis by simp
    qed
    with fc show ?thesis by simp
  qed
  show "\<forall>c \<in> set wh. cell_solid board c"
  proof
    fix c assume "c \<in> set wh"
    with grouped_member(1)[OF mem] have cg: "c \<in> set (grouped counts)" by blast
    with ok have cc: "c \<in> set cells" and nb: "is_blank board (fst c) (snd c) = Inr False"
      by (auto simp add: grouping_ok_def)
    with processed obtain v where g: "getitem board c = Inr v" by fastforce
    from sc(2) cc have nn: "0 \<le> fst c" "0 \<le> snd c" by blast+
    from not_blank_solid[OF nb _ nn(1) width[OF cc] nn(2), of v] g show "cell_solid board c" by simp
  qed
qed

lemma find_Some_member: "List.find P xs = Some x \<Longrightarrow> x \<in> set xs \<and> P x"
  by (induction xs) (auto split: if_splits)

lemma variant_decreases:
  assumes sel: "select selector board = Inr cells" and grp: "group_cells board cells [] = Inr counts"
    and fnd: "List.find (\<lambda>(v, wh). length wh > 1) counts = Some (v, wh)"
  shows "blank_all board wh = Inr (Some b2) \<Longrightarrow> solid b2 < solid board"
    and "keep \<in> set wh \<Longrightarrow> blank_others board keep wh = Inr (Some b2) \<Longrightarrow> solid b2 < solid board"
proof -
  from find_Some_member[OF fnd] have mem: "(v, wh) \<in> set counts" and len: "length wh > 1" by auto
  note gs = group_solid[OF sel grp mem]
  from len have ne: "wh \<noteq> []" by auto
  show "solid b2 < solid board" if "blank_all board wh = Inr (Some b2)"
    using blank_all_solid[OF that gs(2) gs(1)] ne by simp
  show "solid b2 < solid board" if k: "keep \<in> set wh" and b: "blank_others board keep wh = Inr (Some b2)"
  proof -
    let ?others = "filter (\<lambda>c. c \<noteq> keep) wh"
    from b have ba: "blank_all board ?others = Inr (Some b2)" by (simp add: blank_others_filter)
    from len obtain c1 c2 rest where wh: "wh = c1 # c2 # rest"
      by (cases wh; cases "tl wh") auto
    with gs(1) have "c1 \<noteq> c2" by simp
    then have "c1 \<noteq> keep \<or> c2 \<noteq> keep" by auto
    then obtain c where "c \<in> set wh" "c \<noteq> keep"
      unfolding wh by (metis list.set_intros(1) list.set_intros(2))
    then have "?others \<noteq> []" unfolding filter_empty_conv by blast
    moreover have "\<forall>c \<in> set ?others. cell_solid board c" using gs(2) by simp
    moreover have "distinct ?others" using gs(1) by simp
    ultimately show ?thesis using blank_all_solid[OF ba] by simp
  qed
qed

lemma then_do_cong [fundef_cong]:
  "r = r' \<Longrightarrow> (\<And>a. r' = Some (Inr a) \<Longrightarrow> f a = f' a) \<Longrightarrow> then_do r f = then_do r' f'"
  by (auto simp add: then_do_def split: option.splits sum.splits)

lemma for_each_cong [fundef_cong]:
  "xs = ys \<Longrightarrow> s = t \<Longrightarrow> (\<And>x s'. x \<in> set ys \<Longrightarrow> body x s' = body' x s')
    \<Longrightarrow> for_each xs s body = for_each ys t body'"
proof (induction ys arbitrary: xs s t)
  case Nil
  then show ?case by simp
next
  case (Cons y ys)
  have "for_each ys u body = for_each ys u body'" for u
    by (rule Cons.IH) (simp_all add: Cons.prems(3))
  with Cons.prems show ?case by simp
qed

text \<open>
  The generators call each other through the list: \<open>generators[0](b2, generators)\<close> is
  the running generator again, \<open>generators[1](board, generators[1:])\<close> the next one, called
  only when there is one. \<open>run\<close> is that chain, on the list from the running generator on;
  the set of answers is passed along and returned. A board handed to the running
  generator again has fewer cells that are not blank, which bounds the recursion.

  The depth of the interpreter's call stack is not part of \<open>run\<close>: every call of the
  source is a nested Python call, and on a board large enough for the chain to exceed the
  interpreter's recursion limit the source raises \<open>RecursionError\<close> where \<open>run\<close> has the
  value that the chain has on an unbounded stack. What is proved of \<open>run\<close> and \<open>solve\<close>
  below is therefore stated of the invocations that return, \<open>Some (Inr S)\<close>, and says
  nothing of one that the recursion limit stops.
\<close>

function run :: "set_order \<Rightarrow> generator list \<Rightarrow> hitori \<Rightarrow> hitori set \<Rightarrow> (error + hitori set) option" where
  "run iteration [] board answers = Some (Inr answers)"
| "run iteration (Collect_candidate # generators) board answers =
     run iteration generators board (insert board answers)"
| "run iteration (Check_connectedness # generators) board answers =
     then_do (connectedness_holds iteration board) (\<lambda>passes.
       if \<not> passes then Some (Inr answers)
       else run iteration generators board answers)"
| "run iteration (Blank_some selector # generators) board answers =
     (case select selector board of Inl e \<Rightarrow> Some (Inl e)
      | Inr cells \<Rightarrow>
     (case group_cells board cells [] of Inl e \<Rightarrow> Some (Inl e)
      | Inr counts \<Rightarrow>
     (case List.find (\<lambda>(v, wh). length wh > 1) counts of
        Some (v, wh) \<Rightarrow>
          then_do (for_each wh answers (\<lambda>keep answers.
              case blank_others board keep wh of Inl e \<Rightarrow> Some (Inl e)
              | Inr None \<Rightarrow> Some (Inr answers)
              | Inr (Some b2) \<Rightarrow> run iteration (Blank_some selector # generators) b2 answers))
            (\<lambda>answers.
              case blank_all board wh of Inl e \<Rightarrow> Some (Inl e)
              | Inr None \<Rightarrow> Some (Inr answers)
              | Inr (Some b2) \<Rightarrow> run iteration (Blank_some selector # generators) b2 answers)
      | None \<Rightarrow> run iteration generators board answers)))"
  by pat_completeness auto

termination
  apply (relation "(\<lambda>(it, gens, b, acc). solid b) <*mlex*> measure (\<lambda>(it, gens, b, acc). length gens)")
  subgoal by (simp add: wf_mlex)
  subgoal by (simp add: mlex_leq)
  subgoal by (simp add: mlex_leq)
  subgoal by (simp add: mlex_leq)
  subgoal premises p for iteration selector generators board answers cells counts x2 v wh keep s' bb b2
  proof -
    from p(3,4) have f: "List.find (\<lambda>(v, wh). 1 < length wh) counts = Some (v, wh)" by simp
    from p(6,7) have b: "blank_others board keep wh = Inr (Some b2)" by simp
    have "solid b2 < solid board" by (rule variant_decreases(2)[OF p(1) p(2) f p(5) b])
    then show ?thesis by (intro mlex_less) simp
  qed
  subgoal premises p for iteration selector generators board answers cells counts x2 v wh a bb b2
  proof -
    from p(3,4) have f: "List.find (\<lambda>(v, wh). 1 < length wh) counts = Some (v, wh)" by simp
    from p(6,7) have b: "blank_all board wh = Inr (Some b2)" by simp
    have "solid b2 < solid board" by (rule variant_decreases(1)[OF p(1) p(2) f b])
    then show ?thesis by (intro mlex_less) simp
  qed
  done

text \<open>
  \<open>solve\<close>: one stage per row, one per column, the connectivity test and the collector,
  started on the board with no answer yet.
\<close>

definition gens :: "nat \<Rightarrow> nat \<Rightarrow> generator list" where
  "gens mx my =
     map (\<lambda>y. Blank_some (Row_n y)) [0..<my] @ map (\<lambda>x. Blank_some (Col_n x)) [0..<mx]
       @ [Check_connectedness, Collect_candidate]"

definition solve :: "set_order \<Rightarrow> hitori \<Rightarrow> (error + hitori set) option" where
  "solve iteration board =
     (case size_b board of Inl e \<Rightarrow> Some (Inl e)
      | Inr (mx, my) \<Rightarrow> run iteration (gens mx my) board {})"

section \<open>Properties of the board\<close>

text \<open>
  Claim C3. On a board built by the constructor, at in-range coordinates with at least one
  orthogonal neighbour for which \<open>is_blank\<close> is true, \<open>blank\<close> raises \<open>ValueError\<close> and the
  receiver after the call is the receiver before it.
\<close>

theorem blank_adjacent_fails:
  assumes "rectangular b" and "in_range b x y"
    and "blank_at b (x - 1, y) \<or> blank_at b (x + 1, y) \<or> blank_at b (x, y - 1) \<or> blank_at b (x, y + 1)"
  shows "blank_call b x y = (b, Inl ValueError)"
proof -
  from assms(2) have ne: "lines b \<noteq> []" by (simp add: in_range_def)
  from assms(3) show ?thesis
    unfolding blank_call_def blank_at_def fst_conv snd_conv is_blank_rect[OF assms(1) ne]
    by (simp add: blank_rect[OF assms(1,2)])
qed

text \<open>
  Witness for C3: the board \<open>#2 / 34\<close> at \<open>(1, 0)\<close>, whose left neighbour is blank.
\<close>

theorem blank_adjacent_fails_witness:
  "rectangular (Board [''#2'', ''34'']) \<and> in_range (Board [''#2'', ''34'']) 1 0
   \<and> blank_at (Board [''#2'', ''34'']) (1 - 1, 0)
   \<and> blank_call (Board [''#2'', ''34'']) 1 0 = (Board [''#2'', ''34''], Inl ValueError)"
proof -
  have r: "rectangular (Board [''#2'', ''34''])" by (simp add: rectangular_def)
  have i: "in_range (Board [''#2'', ''34'']) 1 0" by (simp add: in_range_def)
  have a: "blank_at (Board [''#2'', ''34'']) (1 - 1, 0)"
    by (simp add: blank_at_def is_blank_def py_getitem_def getitem_def norm_index_def BLANK_def)
  from blank_adjacent_fails[OF r i] a r i show ?thesis by blast
qed

text \<open>
  Claim C4. When \<open>blank\<close> succeeds at in-range coordinates, the new board has the same
  size, reads the same at every other in-range coordinate, and is blank at \<open>(x, y)\<close>.
\<close>

theorem blank_succeeds_result:
  assumes r: "rectangular b" and i: "in_range b x y" and s: "blank b x y = Inr b2"
  shows "size_b b2 = size_b b
    \<and> (\<forall>x' y'. in_range b x' y' \<and> (x', y') \<noteq> (x, y) \<longrightarrow> getitem b2 (x', y') = getitem b (x', y'))
    \<and> is_blank b2 x y = Inr True"
proof -
  have l: "lines b2 = (lines b)[nat y := (lines b ! nat y)[nat x := BLANK]]"
    using assms by (rule blank_rect_lines)
  have r2: "rectangular b2" using assms by (rule blank_rect_rectangular)
  from i have ne: "lines b \<noteq> []" and y: "0 \<le> y" "nat y < length (lines b)"
    and x: "0 \<le> x" "x < int (length (lines b ! 0))"
    by (auto simp add: in_range_def)
  have len: "length (lines b ! nat y) = length (lines b ! 0)" using r y(2) by (rule rectangular_nth)
  have len0: "length (lines b2 ! 0) = length (lines b ! 0)"
    using ne len unfolding l by (cases "nat y = 0") simp_all
  have ne2: "lines b2 \<noteq> []" using ne unfolding l by simp
  have sz: "size_b b2 = size_b b"
    using ne ne2 len0 by (simp add: size_b_def py_getitem_in) (simp add: l)
  have ir: "in_range b2 u v = in_range b u v" for u v
    using ne ne2 len0 by (simp add: in_range_def) (simp add: l)
  have other: "getitem b2 (x', y') = getitem b (x', y')" if "in_range b x' y'" "(x', y') \<noteq> (x, y)" for x' y'
  proof -
    from that(1) have y': "0 \<le> y'" "y' < int (length (lines b))" and x': "0 \<le> x'" "x' < int (length (lines b ! 0))"
      by (simp_all add: in_range_def)
    from y' have ny': "nat y' < length (lines b)" by simp
    have g: "py_getitem (lines b2) y' = Inr (lines b2 ! nat y')" "py_getitem (lines b) y' = Inr (lines b ! nat y')"
      using y' by (simp_all add: py_getitem_in l)
    show ?thesis
    proof (cases "y' = y")
      case True
      with that(2) have "x' \<noteq> x" by simp
      with x x' have "nat x' \<noteq> nat x" by simp
      with True y x' len show ?thesis
        unfolding getitem_def prod.case g by (simp add: l py_getitem_in)
    next
      case False
      with y y' have "nat y' \<noteq> nat y" by simp
      then show ?thesis unfolding getitem_def prod.case g by (simp add: l)
    qed
  qed
  have "in_range b2 x y" using i by (simp add: ir)
  moreover have "lines b2 ! nat y ! nat x = BLANK" using y x len by (simp add: l)
  ultimately have "is_blank b2 x y = Inr True" by (simp add: is_blank_rect[OF r2 ne2])
  with sz other show ?thesis by blast
qed

text \<open>
  Witness for C4: blanking \<open>(0, 0)\<close> of \<open>12 / 34\<close>.
\<close>

theorem blank_succeeds_result_witness:
  "rectangular (Board [''12'', ''34'']) \<and> in_range (Board [''12'', ''34'']) 0 0
   \<and> blank (Board [''12'', ''34'']) 0 0 = Inr (Board [''#2'', ''34''])
   \<and> in_range (Board [''12'', ''34'']) 1 1 \<and> ((1::int), (1::int)) \<noteq> (0, 0)
   \<and> getitem (Board [''#2'', ''34'']) (1, 1) = getitem (Board [''12'', ''34'']) (1, 1)
   \<and> is_blank (Board [''#2'', ''34'']) 0 0 = Inr True"
proof -
  have r: "rectangular (Board [''12'', ''34''])" by (simp add: rectangular_def)
  have i: "in_range (Board [''12'', ''34'']) 0 0" "in_range (Board [''12'', ''34'']) 1 1" by (simp_all add: in_range_def)
  have s: "blank (Board [''12'', ''34'']) 0 0 = Inr (Board [''#2'', ''34''])"
    by (simp add: blank_rect[OF r i(1)] in_range_def BLANK_def)
  from blank_succeeds_result[OF r i(1) s] r i s show ?thesis by simp
qed

text \<open>
  Claim C9. On a board that satisfies the adjacency invariant, blanking an in-range cell
  that is already blank does not fail and returns a board equal to the receiver.
\<close>

theorem blank_idempotent:
  assumes r: "rectangular b" and n: "no_adjacent_blanks b" and i: "in_range b x y"
    and bl: "is_blank b x y = Inr True"
  shows "blank b x y = Inr b \<and> (\<forall>b2. blank b x y = Inr b2 \<longrightarrow> eq_b b b2)"
proof -
  from i have ne: "lines b \<noteq> []" by (simp add: in_range_def)
  from bl have at: "blank_at b (x, y)" by (simp add: blank_at_def)
  note nb = no_adjacent_blanksD[OF r n at, unfolded blank_at_def fst_conv snd_conv is_blank_rect[OF r ne]]
  from bl have c: "lines b ! nat y ! nat x = BLANK" by (simp add: is_blank_rect[OF r ne])
  have "(lines b)[nat y := (lines b ! nat y)[nat x := BLANK]] = lines b"
    using c by (metis list_update_id)
  with nb have "blank b x y = Inr b"
    unfolding blank_rect[OF r i] by simp
  then show ?thesis by (simp add: eq_b_def)
qed

text \<open>
  Witness for C9: blanking \<open>(1, 1)\<close> of \<open>#2 / 3#\<close> again.
\<close>

theorem blank_idempotent_witness:
  "rectangular (Board [''#2'', ''3#'']) \<and> no_adjacent_blanks (Board [''#2'', ''3#''])
   \<and> in_range (Board [''#2'', ''3#'']) 1 1 \<and> is_blank (Board [''#2'', ''3#'']) 1 1 = Inr True
   \<and> blank (Board [''#2'', ''3#'']) 1 1 = Inr (Board [''#2'', ''3#''])
   \<and> eq_b (Board [''#2'', ''3#'']) (Board [''#2'', ''3#''])"
proof -
  let ?b = "Board [''#2'', ''3#'']"
  have r: "rectangular ?b" by (simp add: rectangular_def)
  have ne: "lines ?b \<noteq> []" by simp
  have i: "in_range ?b 1 1" by (simp add: in_range_def)
  have bl: "is_blank ?b 1 1 = Inr True" by (simp add: is_blank_rect[OF r ne] in_range_def BLANK_def)
  have n: "no_adjacent_blanks ?b"
    by (simp add: no_adjacent_blanks_def all_cells_def size_b_def py_getitem_def norm_index_def py_range_def
        upt_rec blank_at_def is_blank_rect[OF r ne] in_range_def BLANK_def)
  from blank_idempotent[OF r n i bl] r n i bl show ?thesis by simp
qed

text \<open>
  Claim C7. When some line's length differs from the first line's, the constructor fails
  with \<open>AssertionError\<close>; no board is produced.
\<close>

theorem init_unequal_fails:
  assumes "\<exists>l \<in> set ls. length l \<noteq> length (ls ! 0)"
  shows "Hitori ls = Inl AssertionError"
  using assms by (auto simp add: Hitori_def list_all_iff)

text \<open>
  Witness for C7: the lines \<open>12\<close> and \<open>3\<close>.
\<close>

theorem init_unequal_fails_witness:
  "(\<exists>l \<in> set [''12'', ''3'']. length l \<noteq> length ([''12'', ''3''] ! 0)) \<and> Hitori [''12'', ''3''] = Inl AssertionError"
proof -
  have h: "\<exists>l \<in> set [''12'', ''3'']. length l \<noteq> length ([''12'', ''3''] ! 0)" by simp
  from init_unequal_fails[OF h] h show ?thesis by blast
qed

section \<open>Properties of the union-find structure\<close>

lemma root_of_dom: "root_of m k r \<Longrightarrow> k \<in> dom m"
  by (induction rule: root_of.induct) auto

lemma root_of_is_root: "root_of m k r \<Longrightarrow> \<exists>n. m r = Some (r, n)"
  by (induction rule: root_of.induct) auto

lemma root_of_root_eq: "m k = Some (k, n) \<Longrightarrow> root_of m k r \<Longrightarrow> r = k"
  by (erule root_of.cases) auto

lemma root_of_link_inv: "m k = Some (q, n) \<Longrightarrow> q \<noteq> k \<Longrightarrow> root_of m k r \<Longrightarrow> root_of m q r"
  by (erule root_of.cases) auto

lemma root_of_fun: "root_of m k r \<Longrightarrow> root_of m k r' \<Longrightarrow> r = r'"
proof (induction arbitrary: r' rule: root_of.induct)
  case (root k n)
  then show ?case by (auto dest: root_of_root_eq)
next
  case (link k q n r)
  from link.hyps(1,2) link.prems have "root_of m q r'" by (rule root_of_link_inv)
  then show ?case by (rule link.IH)
qed

lemma visits_root: "m k = Some (k, n) \<Longrightarrow> visits m k p \<Longrightarrow> p = k"
  by (erule visits.cases) auto

lemma visits_step: "m k = Some (q, n) \<Longrightarrow> q \<noteq> k \<Longrightarrow> visits m k p \<longleftrightarrow> p = k \<or> visits m q p"
  by (auto intro: visits.intros elim: visits.cases)

lemma visits_snoc: "visits m a p \<Longrightarrow> m p = Some (q, n) \<Longrightarrow> q \<noteq> p \<Longrightarrow> visits m a q"
proof (induction rule: visits.induct)
  case (here k)
  then show ?case by (auto intro: visits.intros)
next
  case (onward k q' n' p)
  then show ?case by (auto intro: visits.intros)
qed

lemma visits_root_of: "visits m a p \<Longrightarrow> root_of m a r \<Longrightarrow> root_of m p r"
proof (induction rule: visits.induct)
  case (here k)
  then show ?case .
next
  case (onward k q n p)
  then show ?case by (auto dest: root_of_link_inv)
qed

lemma no_cycle:
  assumes "root_of m q r" and "visits m q p" and "m p = Some (q, n)" and "p \<noteq> q"
  shows False
  using assms
proof (induction arbitrary: p n rule: root_of.induct)
  case (root k n0)
  then show ?case by (auto dest: visits_root)
next
  case (link k q1 n1 r)
  from link.prems(1) link.hyps(1,2) link.prems(3) have "visits m q1 p"
    by (auto simp add: visits_step)
  with link.prems(2,3) have "visits m q1 k" by (auto intro: visits_snoc)
  with link.hyps(1,2) link.IH show ?case by blast
qed

lemma find_loop_halved_gen:
  assumes "root_of m p r" and "\<forall>k. visits m p k \<longrightarrow> M k = m k" and "m p = Some (q, n)"
  shows "\<exists>nr. m r = Some (r, nr) \<and>
    find_loop M p q n = Some (Inr ((\<lambda>k. if visits m p k then (case m k of None \<Rightarrow> None | Some (q, n) \<Rightarrow> m q) else M k), r, nr))"
  using assms
proof (induction arbitrary: M q n rule: root_of.induct)
  case (root k n0)
  then have "q = k" "n = n0" by simp_all
  moreover have "(\<lambda>j. if visits m k j then (case m j of None \<Rightarrow> None | Some (q, n) \<Rightarrow> m q) else M j) = M"
  proof
    fix j
    show "(if visits m k j then (case m j of None \<Rightarrow> None | Some (q, n) \<Rightarrow> m q) else M j) = M j"
      using root.hyps root.prems(1) visits_root[of m k n0 j] by auto
  qed
  ultimately show ?case using root.hyps by (subst find_loop.simps) simp
next
  case (link k q1 n1 r)
  from link.hyps(1) link.prems(2) have q: "q = q1" "n = n1" by simp_all
  from link.hyps(3) obtain q' n' where e: "m q1 = Some (q', n')"
    by (auto dest: root_of_dom)
  have vq: "visits m k q1" using link.hyps(1,2) by (auto intro: visits.intros)
  have Mq: "M q1 = Some (q', n')" using link.prems(1) vq e by simp
  let ?M' = "M(k \<mapsto> (q', n'))"
  have nv: "\<not> visits m q1 k" using no_cycle[OF link.hyps(3) _ link.hyps(1)] link.hyps(2) by blast
  have agree: "\<forall>j. visits m q1 j \<longrightarrow> ?M' j = m j"
  proof (intro allI impI)
    fix j assume v: "visits m q1 j"
    with nv have "j \<noteq> k" by blast
    moreover from v have "visits m k j" using link.hyps(1,2) by (simp add: visits_step)
    ultimately show "?M' j = m j" using link.prems(1) by simp
  qed
  from link.IH[OF agree e] obtain nr where nr: "m r = Some (r, nr)"
    and fl: "find_loop ?M' q1 q' n' = Some (Inr ((\<lambda>j. if visits m q1 j then (case m j of None \<Rightarrow> None | Some (q, n) \<Rightarrow> m q) else ?M' j), r, nr))"
    by blast
  have eq: "(\<lambda>j. if visits m q1 j then (case m j of None \<Rightarrow> None | Some (q, n) \<Rightarrow> m q) else ?M' j)
      = (\<lambda>j. if visits m k j then (case m j of None \<Rightarrow> None | Some (q, n) \<Rightarrow> m q) else M j)"
  proof
    fix j
    show "(if visits m q1 j then (case m j of None \<Rightarrow> None | Some (q, n) \<Rightarrow> m q) else ?M' j)
      = (if visits m k j then (case m j of None \<Rightarrow> None | Some (q, n) \<Rightarrow> m q) else M j)"
      using nv link.hyps(1,2) e visits_step[of m k q1 n1 j] by (cases "j = k") (simp_all add: visits.here)
  qed
  have "find_loop M k q1 n1 = find_loop ?M' q1 q' n'"
    using link.hyps(2) Mq by (subst find_loop.simps) simp
  with fl nr q show ?case unfolding eq by simp
qed

lemma find_loop_halved:
  assumes "root_of m p r" and "m p = Some (q, n)"
  shows "\<exists>nr. m r = Some (r, nr) \<and> find_loop m p q n = Some (Inr (halved m p, r, nr))"
  using find_loop_halved_gen[OF assms(1) _ assms(2), of m] unfolding halved_def by simp

lemma halved_root_fixed: "m k = Some (k, n) \<Longrightarrow> halved m p k = Some (k, n)"
  by (simp add: halved_def)

lemma halved_root_of_fwd:
  assumes "root_of m k r"
  shows "root_of (halved m p) k r \<and> (\<forall>q n. m k = Some (q, n) \<longrightarrow> root_of (halved m p) q r)"
  using assms
proof (induction rule: root_of.induct)
  case (root k n)
  have "halved m p k = Some (k, n)" using root.hyps by (simp add: halved_def)
  then have "root_of (halved m p) k k" by (rule root_of.root)
  with root.hyps show ?case by simp
next
  case (link k q n r)
  from link.hyps(3) obtain q' n' where e: "m q = Some (q', n')" by (auto dest: root_of_dom)
  from link.IH e have IH1: "root_of (halved m p) q r" and IH2: "root_of (halved m p) q' r" by blast+
  have "root_of (halved m p) k r"
  proof (cases "visits m p k")
    case False
    then have "halved m p k = Some (q, n)" using link.hyps(1) by (simp add: halved_def)
    then show ?thesis using link.hyps(2) IH1 by (rule root_of.link)
  next
    case True
    then have h: "halved m p k = Some (q', n')" using link.hyps(1) e by (simp add: halved_def)
    have "q' \<noteq> k"
    proof
      assume "q' = k"
      with e have "m q = Some (k, n')" by simp
      moreover have "visits m k q" using link.hyps(1,2) by (auto intro: visits.intros)
      moreover have "root_of m k r" using link.hyps by (auto intro: root_of.link)
      ultimately show False using link.hyps(2) no_cycle[of m k r q n'] by blast
    qed
    with h show ?thesis using IH2 by (rule root_of.link)
  qed
  with IH1 link.hyps(1) show ?case by simp
qed

lemma halved_dom:
  assumes "\<forall>k \<in> dom m. \<exists>r. root_of m k r"
  shows "dom (halved m p) = dom m"
proof (rule set_eqI)
  fix k
  show "k \<in> dom (halved m p) \<longleftrightarrow> k \<in> dom m"
  proof (cases "k \<in> dom m")
    case True
    with assms obtain r where "root_of m k r" by blast
    then have "root_of (halved m p) k r" by (simp add: halved_root_of_fwd)
    then have "k \<in> dom (halved m p)" by (rule root_of_dom)
    with True show ?thesis by simp
  next
    case False
    then have "m k = None" by (cases "m k") auto
    then have "halved m p k = None" by (simp add: halved_def)
    then have "k \<notin> dom (halved m p)" by (simp add: domIff)
    with False show ?thesis by simp
  qed
qed

lemma halved_root_of:
  assumes "\<forall>k \<in> dom m. \<exists>r. root_of m k r"
  shows "root_of (halved m p) k r \<longleftrightarrow> root_of m k r"
proof
  assume "root_of m k r" then show "root_of (halved m p) k r" by (simp add: halved_root_of_fwd)
next
  assume h: "root_of (halved m p) k r"
  then have "k \<in> dom m" using halved_dom[OF assms] root_of_dom by fastforce
  with assms obtain r0 where r0: "root_of m k r0" by blast
  then have "root_of (halved m p) k r0" by (simp add: halved_root_of_fwd)
  with h have "r = r0" by (rule root_of_fun)
  with r0 show "root_of m k r" by simp
qed

lemma halved_root_entry:
  assumes "\<forall>k \<in> dom m. \<exists>r. root_of m k r"
  shows "halved m p r = Some (r, n) \<longleftrightarrow> m r = Some (r, n)"
proof
  assume "m r = Some (r, n)" then show "halved m p r = Some (r, n)" by (rule halved_root_fixed)
next
  assume h: "halved m p r = Some (r, n)"
  then have "root_of (halved m p) r r" by (rule root_of.root)
  then have "root_of m r r" by (simp add: halved_root_of[OF assms])
  then obtain n0 where "m r = Some (r, n0)" by (auto dest: root_of_is_root)
  with h show "m r = Some (r, n)" by (simp add: halved_root_fixed)
qed

lemma halved_inv:
  assumes "uf_inv m"
  shows "uf_inv (halved m p)"
proof -
  from assms have a: "\<forall>k \<in> dom m. \<exists>r. root_of m k r" by (simp add: uf_inv_def)
  note h = halved_dom[OF a] halved_root_of[OF a] halved_root_entry[OF a]
  from assms show ?thesis unfolding uf_inv_def h by simp
qed

lemma find_absent: "p \<notin> dom m \<Longrightarrow> find_uf m p = Some (Inr (m, None, 0))"
  by (cases "m p") (auto simp add: find_uf_def)

lemma find_present:
  assumes "root_of m p r"
  shows "\<exists>n. m r = Some (r, n) \<and> find_uf m p = Some (Inr (halved m p, r, n))"
proof -
  from assms obtain q n where e: "m p = Some (q, n)" by (auto dest: root_of_dom)
  from find_loop_halved[OF assms e] e show ?thesis
    by (auto simp add: find_uf_def)
qed

lemma join_root_of_fwd:
  assumes pl: "m pl = Some (pl, pn)" and ql: "m ql = Some (ql, qn)" and ne: "pl \<noteq> ql"
    and r: "root_of m k r0"
  shows "root_of (m(pl \<mapsto> (ql, s), ql \<mapsto> (ql, s))) k (if r0 = pl then ql else r0)"
  using r
proof (induction rule: root_of.induct)
  case (root k n)
  let ?m3 = "m(pl \<mapsto> (ql, s), ql \<mapsto> (ql, s))"
  have rq: "root_of ?m3 ql ql" by (rule root_of.root[where n = s]) simp
  show ?case
  proof (cases "k = pl")
    case True
    have "root_of ?m3 pl ql"
    proof (rule root_of.link)
      show "?m3 pl = Some (ql, s)" using ne by simp
      show "ql \<noteq> pl" using ne by simp
      show "root_of ?m3 ql ql" by (rule rq)
    qed
    then show ?thesis unfolding True by (simp only: simp_thms if_True)
  next
    case False
    show ?thesis
    proof (cases "k = ql")
      case True
      have "(ql = pl) = False" using ne by auto
      with rq show ?thesis unfolding True by (simp only: if_False)
    next
      case kq: False
      with False root.hyps have "?m3 k = Some (k, n)" by simp
      then have "root_of ?m3 k k" by (rule root_of.root)
      moreover have "(k = pl) = False" using False by simp
      ultimately show ?thesis by (simp only: if_False)
    qed
  qed
next
  case (link k q n r)
  let ?m3 = "m(pl \<mapsto> (ql, s), ql \<mapsto> (ql, s))"
  from link.hyps(1,2) pl ql have "k \<noteq> pl" "k \<noteq> ql" by auto
  with link.hyps(1) have "?m3 k = Some (q, n)" by simp
  then show ?case using link.hyps(2) link.IH by (rule root_of.link)
qed

lemma join_root_of:
  assumes a: "\<forall>k \<in> dom m. \<exists>r. root_of m k r"
    and pl: "m pl = Some (pl, pn)" and ql: "m ql = Some (ql, qn)" and ne: "pl \<noteq> ql"
  shows "root_of (m(pl \<mapsto> (ql, s), ql \<mapsto> (ql, s))) k r
     \<longleftrightarrow> (\<exists>r0. root_of m k r0 \<and> r = (if r0 = pl then ql else r0))"
proof
  assume "\<exists>r0. root_of m k r0 \<and> r = (if r0 = pl then ql else r0)"
  then show "root_of (m(pl \<mapsto> (ql, s), ql \<mapsto> (ql, s))) k r"
    using join_root_of_fwd[OF pl ql ne] by blast
next
  let ?m3 = "m(pl \<mapsto> (ql, s), ql \<mapsto> (ql, s))"
  assume h: "root_of ?m3 k r"
  then have "k \<in> dom ?m3" by (rule root_of_dom)
  with pl ql have "k \<in> dom m" by auto
  with a obtain r0 where r0: "root_of m k r0" by blast
  then have "root_of ?m3 k (if r0 = pl then ql else r0)" by (rule join_root_of_fwd[OF pl ql ne])
  with h have "r = (if r0 = pl then ql else r0)" by (rule root_of_fun)
  with r0 show "\<exists>r0. root_of m k r0 \<and> r = (if r0 = pl then ql else r0)" by blast
qed

lemma class_finite: "finite (dom m) \<Longrightarrow> finite {k. root_of m k r}"
  by (rule finite_subset[where B = "dom m"]) (auto dest: root_of_dom)

lemma join_inv:
  assumes inv: "uf_inv m"
    and pl: "m pl = Some (pl, pn)" and ql: "m ql = Some (ql, qn)" and ne: "pl \<noteq> ql"
  shows "uf_inv (m(pl \<mapsto> (ql, pn + qn), ql \<mapsto> (ql, pn + qn)))"
proof -
  let ?m3 = "m(pl \<mapsto> (ql, pn + qn), ql \<mapsto> (ql, pn + qn))"
  from inv have fin: "finite (dom m)" and a: "\<forall>k \<in> dom m. \<exists>r. root_of m k r"
    and sz: "\<And>r n. m r = Some (r, n) \<Longrightarrow> n = card {k. root_of m k r}"
    by (simp_all add: uf_inv_def)
  note ro = join_root_of[OF a pl ql ne, of "pn + qn"]
  have d: "dom ?m3 = dom m" using pl ql by auto
  have 1: "finite (dom ?m3)" using fin d by simp
  have 2: "\<forall>k \<in> dom ?m3. \<exists>r. root_of ?m3 k r"
    unfolding d ro using a by blast
  have 3: "n = card {k. root_of ?m3 k r}" if h: "?m3 r = Some (r, n)" for r n
  proof (cases "r = ql")
    case True
    with h have n: "n = pn + qn" by simp
    have "{k. root_of ?m3 k ql} = {k. root_of m k pl} \<union> {k. root_of m k ql}"
      unfolding ro using ne by auto
    moreover have "{k. root_of m k pl} \<inter> {k. root_of m k ql} = {}"
      using ne by (auto dest: root_of_fun)
    ultimately have "card {k. root_of ?m3 k ql} = card {k. root_of m k pl} + card {k. root_of m k ql}"
      using class_finite[OF fin] by (simp add: card_Un_disjoint)
    with sz[OF pl] sz[OF ql] n True show ?thesis by simp
  next
    case False
    with h ne have rp: "r \<noteq> pl" by auto
    with False h have mr: "m r = Some (r, n)" by simp
    have "{k. root_of ?m3 k r} = {k. root_of m k r}"
      unfolding ro using False rp by auto
    with sz[OF mr] show ?thesis by simp
  qed
  from 1 2 3 show ?thesis unfolding uf_inv_def by blast
qed

lemma same_class_halved:
  assumes "\<forall>k \<in> dom m. \<exists>r. root_of m k r"
  shows "same_class (halved m p) a b = same_class m a b"
  by (simp add: same_class_def halved_root_of[OF assms])

lemma find_spec:
  assumes inv: "uf_inv m"
  shows "\<exists>m1 lead n. find_uf m p = Some (Inr (m1, lead, n)) \<and> uf_inv m1 \<and> dom m1 = dom m
     \<and> (\<forall>k r. root_of m1 k r \<longleftrightarrow> root_of m k r)
     \<and> (\<forall>r j. m1 r = Some (r, j) \<longleftrightarrow> m r = Some (r, j))
     \<and> (p \<notin> dom m \<longrightarrow> lead = None \<and> n = 0 \<and> m1 = m)
     \<and> (p \<in> dom m \<longrightarrow> root_of m p lead \<and> m lead = Some (lead, n))"
proof (cases "p \<in> dom m")
  case False
  with inv find_absent[OF False] show ?thesis by simp
next
  case True
  from inv have a: "\<forall>k \<in> dom m. \<exists>r. root_of m k r" by (simp add: uf_inv_def)
  with True obtain r where r: "root_of m p r" by blast
  from find_present[OF r] obtain n where n: "m r = Some (r, n)"
    and f: "find_uf m p = Some (Inr (halved m p, r, n))" by blast
  show ?thesis
    using f n r True halved_inv[OF inv] halved_dom[OF a] halved_root_of[OF a] halved_root_entry[OF a]
    by simp
qed

lemma class_size_pos:
  assumes "uf_inv m" and "root_of m a r" and "m r = Some (r, n)"
  shows "0 < n"
proof -
  from assms(1,3) have "n = card {k. root_of m k r}" and "finite (dom m)"
    unfolding uf_inv_def by blast+
  moreover have "finite {k. root_of m k r}" using \<open>finite (dom m)\<close> by (rule class_finite)
  moreover have "a \<in> {k. root_of m k r}" using assms(2) by simp
  ultimately show ?thesis by (metis card_gt_0_iff empty_iff)
qed

lemma same_class_roots:
  assumes "\<forall>k r. root_of m1 k r \<longleftrightarrow> root_of m k r"
  shows "same_class m1 a b = same_class m a b"
  using assms by (simp add: same_class_def)

lemma same_class_join:
  assumes a: "\<forall>k \<in> dom m. \<exists>r. root_of m k r"
    and pl: "m pl = Some (pl, pn)" and ql: "m ql = Some (ql, qn)" and ne: "pl \<noteq> ql"
    and p: "root_of m p pl" and q: "root_of m q ql"
  shows "same_class (m(pl \<mapsto> (ql, s), ql \<mapsto> (ql, s))) a b \<longleftrightarrow>
     same_class m a b \<or> (same_class m a p \<and> same_class m q b) \<or> (same_class m a q \<and> same_class m p b)"
proof -
  have sp: "same_class m x p \<longleftrightarrow> root_of m x pl" for x
    using p by (auto simp add: same_class_def dest: root_of_fun)
  have sq: "same_class m x q \<longleftrightarrow> root_of m x ql" for x
    using q by (auto simp add: same_class_def dest: root_of_fun)
  have sp': "same_class m p x \<longleftrightarrow> root_of m x pl" for x
    using p by (auto simp add: same_class_def dest: root_of_fun)
  have sq': "same_class m q x \<longleftrightarrow> root_of m x ql" for x
    using q by (auto simp add: same_class_def dest: root_of_fun)
  have f_eq: "(if ra = pl then ql else ra) = (if rb = pl then ql else rb)
      \<longleftrightarrow> ra = rb \<or> (ra = pl \<and> rb = ql) \<or> (ra = ql \<and> rb = pl)" for ra rb
    using ne by auto
  have "same_class (m(pl \<mapsto> (ql, s), ql \<mapsto> (ql, s))) a b \<longleftrightarrow>
      (\<exists>ra rb. root_of m a ra \<and> root_of m b rb
         \<and> (if ra = pl then ql else ra) = (if rb = pl then ql else rb))"
    unfolding same_class_def join_root_of[OF a pl ql ne] by blast
  also have "\<dots> \<longleftrightarrow> (\<exists>ra rb. root_of m a ra \<and> root_of m b rb
         \<and> (ra = rb \<or> (ra = pl \<and> rb = ql) \<or> (ra = ql \<and> rb = pl)))"
    unfolding f_eq ..
  also have "\<dots> \<longleftrightarrow> same_class m a b \<or> (root_of m a pl \<and> root_of m b ql) \<or> (root_of m a ql \<and> root_of m b pl)"
    unfolding same_class_def by blast
  finally show ?thesis unfolding sp sq sp' sq' .
qed

lemma union_spec:
  assumes inv: "uf_inv m"
  shows "\<exists>m'. union_uf m p q = Some (Inr m') \<and> uf_inv m' \<and> dom m' = dom m
     \<and> (None \<notin> dom m \<longrightarrow> (\<forall>a b. same_class m' a b \<longleftrightarrow>
           same_class m a b \<or> (same_class m a p \<and> same_class m q b) \<or> (same_class m a q \<and> same_class m p b)))"
proof -
  from find_spec[OF inv, of p] obtain m1 pl pn where f1: "find_uf m p = Some (Inr (m1, pl, pn))"
    and inv1: "uf_inv m1" and d1: "dom m1 = dom m"
    and ro1: "\<forall>k r. root_of m1 k r \<longleftrightarrow> root_of m k r"
    and re1: "\<forall>r j. m1 r = Some (r, j) \<longleftrightarrow> m r = Some (r, j)"
    and ab1: "p \<notin> dom m \<longrightarrow> pl = None"
    and pr1: "p \<in> dom m \<longrightarrow> root_of m p pl \<and> m pl = Some (pl, pn)"
    by blast
  from find_spec[OF inv1, of q] obtain m2 ql qn where f2: "find_uf m1 q = Some (Inr (m2, ql, qn))"
    and inv2: "uf_inv m2" and d2: "dom m2 = dom m1"
    and ro2: "\<forall>k r. root_of m2 k r \<longleftrightarrow> root_of m1 k r"
    and re2: "\<forall>r j. m2 r = Some (r, j) \<longleftrightarrow> m1 r = Some (r, j)"
    and ab2: "q \<notin> dom m1 \<longrightarrow> ql = None"
    and pr2: "q \<in> dom m1 \<longrightarrow> root_of m1 q ql \<and> m1 ql = Some (ql, qn)"
    by blast
  have ro: "\<forall>k r. root_of m2 k r \<longleftrightarrow> root_of m k r" using ro1 ro2 by simp
  have sc: "same_class m2 a b = same_class m a b" for a b by (rule same_class_roots[OF ro])
  have pn_none: "\<not> same_class m a p \<and> \<not> same_class m p a" if "p \<notin> dom m" for a
    using that by (auto simp add: same_class_def dest: root_of_dom)
  have qn_none: "\<not> same_class m a q \<and> \<not> same_class m q a" if "q \<notin> dom m" for a
    using that by (auto simp add: same_class_def dest: root_of_dom)
  show ?thesis
  proof (cases "pl = None \<or> ql = None")
    case True
    then have u: "union_uf m p q = Some (Inr m2)"
      by (simp add: union_uf_def then_do_def f1 f2)
    have "\<forall>a b. same_class m a b \<longleftrightarrow>
           same_class m a b \<or> (same_class m a p \<and> same_class m q b) \<or> (same_class m a q \<and> same_class m p b)"
      if nn: "None \<notin> dom m"
    proof -
      have "pl \<noteq> None" if "p \<in> dom m"
        using that pr1 nn by (auto dest: root_of_is_root)
      moreover have "ql \<noteq> None" if "q \<in> dom m"
        using that pr2 d1 nn ro1 by (auto dest: root_of_is_root)
      ultimately have "p \<notin> dom m \<or> q \<notin> dom m" using True by blast
      with pn_none qn_none show ?thesis by blast
    qed
    with u inv2 d1 d2 sc show ?thesis by simp
  next
    case False
    then have nn: "pl \<noteq> None" "ql \<noteq> None" by simp_all
    with ab1 ab2 d1 have pq: "p \<in> dom m" "q \<in> dom m" by auto
    with pr1 have rp: "root_of m p pl" "m pl = Some (pl, pn)" by simp_all
    from pq d1 pr2 have rq: "root_of m1 q ql" "m1 ql = Some (ql, qn)" by simp_all
    have p2: "root_of m2 p pl" "m2 pl = Some (pl, pn)" using rp ro re1 re2 by simp_all
    have q2: "root_of m2 q ql" "m2 ql = Some (ql, qn)" using rq ro2 re2 by simp_all
    show ?thesis
    proof (cases "pl = ql")
      case eq: True
      from nn obtain x y where xy: "pl = Some x" "ql = Some y" by auto
      have u: "union_uf m p q = Some (Inr m2)"
        using eq by (simp add: union_uf_def then_do_def f1 f2 xy)
      have "same_class m a p \<and> same_class m q b \<longrightarrow> same_class m a b" for a b
        using rp(1) q2(1) eq unfolding ro[rule_format] same_class_def by (metis root_of_fun)
      moreover have "same_class m a q \<and> same_class m p b \<longrightarrow> same_class m a b" for a b
        using rp(1) q2(1) eq unfolding ro[rule_format] same_class_def by (metis root_of_fun)
      ultimately have "\<forall>a b. same_class m a b \<longleftrightarrow>
           same_class m a b \<or> (same_class m a p \<and> same_class m q b) \<or> (same_class m a q \<and> same_class m p b)"
        by blast
      with u inv2 d1 d2 sc show ?thesis by simp
    next
      case ne: False
      let ?m3 = "m2(pl \<mapsto> (ql, pn + qn), ql \<mapsto> (ql, pn + qn))"
      from nn obtain x y where xy: "pl = Some x" "ql = Some y" by auto
      have u: "union_uf m p q = Some (Inr ?m3)"
        using ne by (simp add: union_uf_def then_do_def f1 f2 xy)
      from inv2 have a2: "\<forall>k \<in> dom m2. \<exists>r. root_of m2 k r" by (simp add: uf_inv_def)
      have i3: "uf_inv ?m3" using inv2 p2(2) q2(2) ne by (rule join_inv)
      have d3: "dom ?m3 = dom m" using p2(2) q2(2) d1 d2 by auto
      note j = same_class_join[OF a2 p2(2) q2(2) ne p2(1) q2(1), of "pn + qn", unfolded sc]
      from u i3 d3 j show ?thesis by blast
    qed
  qed
qed

lemma foldl_insert_apply:
  "foldl (\<lambda>d m. d(m \<mapsto> (m, 1::nat))) d0 ms k = (if k \<in> set ms then Some (k, 1) else d0 k)"
  by (induction ms arbitrary: d0) auto

lemma UnionFind_apply: "UnionFind ms k = (if k \<in> set ms then Some (k, 1) else None)"
  unfolding UnionFind_def foldl_insert_apply by simp

lemma UnionFind_dom: "dom (UnionFind ms) = set ms"
  by (auto simp add: UnionFind_apply dom_def)

lemma UnionFind_root_of: "root_of (UnionFind ms) k r \<longleftrightarrow> k \<in> set ms \<and> r = k"
proof
  assume "root_of (UnionFind ms) k r"
  then show "k \<in> set ms \<and> r = k"
    by (induction rule: root_of.induct) (auto simp add: UnionFind_apply split: if_splits)
next
  assume "k \<in> set ms \<and> r = k"
  then have "UnionFind ms k = Some (k, 1)" by (simp add: UnionFind_apply)
  then have "root_of (UnionFind ms) k k" by (rule root_of.root)
  with \<open>k \<in> set ms \<and> r = k\<close> show "root_of (UnionFind ms) k r" by simp
qed

lemma UnionFind_inv: "uf_inv (UnionFind ms)"
proof -
  have "n = card {k. root_of (UnionFind ms) k r}" if "UnionFind ms r = Some (r, n)" for r n
  proof -
    from that have "r \<in> set ms" "n = 1" by (auto simp add: UnionFind_apply split: if_splits)
    then have "{k. root_of (UnionFind ms) k r} = {r}" by (auto simp add: UnionFind_root_of)
    with \<open>n = 1\<close> show ?thesis by simp
  qed
  moreover have "\<forall>k \<in> set ms. \<exists>r. root_of (UnionFind ms) k r"
    unfolding UnionFind_root_of by blast
  ultimately show ?thesis
    unfolding uf_inv_def UnionFind_dom by blast
qed

lemma same_class_refl: "\<forall>k \<in> dom m. \<exists>r. root_of m k r \<Longrightarrow> a \<in> dom m \<Longrightarrow> same_class m a a"
  unfolding same_class_def by blast

lemma same_class_sym: "same_class m a b \<Longrightarrow> same_class m b a"
  unfolding same_class_def by blast

lemma same_class_trans: "same_class m a b \<Longrightarrow> same_class m b c \<Longrightarrow> same_class m a c"
  unfolding same_class_def by (metis root_of_fun)

lemma same_class_dom: "same_class m a b \<Longrightarrow> a \<in> dom m \<and> b \<in> dom m"
  unfolding same_class_def by (auto dest: root_of_dom)

lemma connected_spec:
  assumes inv: "uf_inv m"
  shows "\<exists>m'. connected m a b = Some (Inr (m', same_class m a b \<or> (a \<notin> dom m \<and> b \<notin> dom m)))
     \<and> uf_inv m' \<and> dom m' = dom m \<and> (\<forall>k r. root_of m' k r \<longleftrightarrow> root_of m k r)"
proof -
  from find_spec[OF inv, of a] obtain m1 la na where f1: "find_uf m a = Some (Inr (m1, la, na))"
    and inv1: "uf_inv m1" and d1: "dom m1 = dom m"
    and ro1: "\<forall>k r. root_of m1 k r \<longleftrightarrow> root_of m k r"
    and re1: "\<forall>r j. m1 r = Some (r, j) \<longleftrightarrow> m r = Some (r, j)"
    and ab1: "a \<notin> dom m \<longrightarrow> la = None \<and> na = 0"
    and pr1: "a \<in> dom m \<longrightarrow> root_of m a la \<and> m la = Some (la, na)"
    by blast
  from find_spec[OF inv1, of b] obtain m2 lb nb where f2: "find_uf m1 b = Some (Inr (m2, lb, nb))"
    and inv2: "uf_inv m2" and d2: "dom m2 = dom m1"
    and ro2: "\<forall>k r. root_of m2 k r \<longleftrightarrow> root_of m1 k r"
    and ab2: "b \<notin> dom m1 \<longrightarrow> lb = None \<and> nb = 0"
    and pr2: "b \<in> dom m1 \<longrightarrow> root_of m1 b lb \<and> m1 lb = Some (lb, nb)"
    by blast
  have c: "connected m a b = Some (Inr (m2, (la, na) = (lb, nb)))"
    by (simp add: connected_def then_do_def f1 f2)
  have "((la, na) = (lb, nb)) = (same_class m a b \<or> (a \<notin> dom m \<and> b \<notin> dom m))"
  proof (cases "a \<in> dom m")
    case True
    with pr1 have ra: "root_of m a la" "m la = Some (la, na)" by simp_all
    from class_size_pos[OF inv ra] have napos: "0 < na" .
    show ?thesis
    proof (cases "b \<in> dom m")
      case bT: True
      with pr2 d1 have rb: "root_of m1 b lb" "m1 lb = Some (lb, nb)" by simp_all
      then have rb': "root_of m b lb" "m lb = Some (lb, nb)" using ro1 re1 by simp_all
      have "same_class m a b \<longleftrightarrow> la = lb"
        using ra(1) rb'(1) unfolding same_class_def by (metis root_of_fun)
      moreover have "la = lb \<longrightarrow> na = nb" using ra(2) rb'(2) by auto
      ultimately show ?thesis using True by auto
    next
      case False
      with ab2 d1 have "nb = 0" by simp
      moreover from False have "\<not> same_class m a b" by (auto dest: same_class_dom)
      ultimately show ?thesis using napos True by simp
    qed
  next
    case False
    with ab1 have la: "la = None" "na = 0" by simp_all
    from False have ns: "\<not> same_class m a b" by (auto dest: same_class_dom)
    show ?thesis
    proof (cases "b \<in> dom m")
      case True
      with pr2 d1 have rb: "root_of m1 b lb" "m1 lb = Some (lb, nb)" by simp_all
      from class_size_pos[OF inv1 rb] have "0 < nb" .
      with la ns True show ?thesis by simp
    next
      case bF: False
      with ab2 d1 have "lb = None" "nb = 0" by simp_all
      with la ns False bF show ?thesis by simp
    qed
  qed
  with c inv2 d1 d2 ro1 ro2 show ?thesis by simp
qed

lemma apply_call_spec:
  assumes inv: "uf_inv m"
  shows "\<exists>m'. apply_call m c = Some (Inr m') \<and> uf_inv m' \<and> dom m' = dom m"
proof (cases c)
  case (Find p)
  from find_spec[OF inv, of p] show ?thesis unfolding Find by (auto simp add: then_do_def)
next
  case (Union p q)
  from union_spec[OF inv, of p q] show ?thesis unfolding Union by auto
next
  case (Connected p q)
  from connected_spec[OF inv, of p q] show ?thesis unfolding Connected by (auto simp add: then_do_def)
qed

lemma apply_calls_spec:
  "uf_inv m \<Longrightarrow> \<exists>m'. apply_calls m cs = Some (Inr m') \<and> uf_inv m' \<and> dom m' = dom m"
proof (induction cs arbitrary: m)
  case Nil
  then show ?case by simp
next
  case (Cons c cs)
  from apply_call_spec[OF Cons.prems, of c] obtain m1
    where 1: "apply_call m c = Some (Inr m1)" "uf_inv m1" "dom m1 = dom m" by blast
  from Cons.IH[OF 1(2)] 1 show ?case by (simp add: then_do_def)
qed

text \<open>
  Claim C5. Whatever sequence of \<open>find\<close>, \<open>union\<close> and \<open>connected\<close> calls is made on a
  structure built from \<open>ms\<close>, every call returns, and in the resulting dictionary every
  tracked key reaches along the leader links a representative that maps to itself and
  whose stored count is the number of tracked keys that reach it.
\<close>

theorem reachable_invariant:
  "\<exists>m. apply_calls (UnionFind ms) cs = Some (Inr m) \<and> dom m = set ms
     \<and> (\<forall>k \<in> set ms. \<exists>r n. root_of m k r \<and> m r = Some (r, n) \<and> n = card {j \<in> set ms. root_of m j r})"
proof -
  from apply_calls_spec[OF UnionFind_inv, of ms cs] obtain m
    where m: "apply_calls (UnionFind ms) cs = Some (Inr m)" "uf_inv m" "dom m = set ms"
    by (auto simp add: UnionFind_dom)
  have "\<exists>r n. root_of m k r \<and> m r = Some (r, n) \<and> n = card {j \<in> set ms. root_of m j r}" if "k \<in> set ms" for k
  proof -
    from that m(2,3) obtain r where r: "root_of m k r" unfolding uf_inv_def by blast
    then obtain n where n: "m r = Some (r, n)" by (auto dest: root_of_is_root)
    with m(2) have "n = card {j. root_of m j r}" unfolding uf_inv_def by blast
    moreover have "{j. root_of m j r} = {j \<in> set ms. root_of m j r}"
      using m(3) by (auto dest: root_of_dom)
    ultimately show ?thesis using r n by auto
  qed
  with m show ?thesis by blast
qed

text \<open>
  Witness for C5: the keys 1, 2, 3 after two unions and a find, at key 1.
\<close>

theorem reachable_invariant_witness:
  "\<exists>m. apply_calls (UnionFind [Some (1::int), Some 2, Some 3])
        [Union (Some 1) (Some 2), Union (Some 2) (Some 3), Find (Some 1)] = Some (Inr m)
     \<and> (\<exists>r n. root_of m (Some 1) r \<and> m r = Some (r, n)
           \<and> n = card {j \<in> set [Some (1::int), Some 2, Some 3]. root_of m j r})"
  using reachable_invariant[of "[Some (1::int), Some 2, Some 3]"
      "[Union (Some 1) (Some 2), Union (Some 2) (Some 3), Find (Some 1)]"] by auto

lemma unions_append: "unions m (ps @ qs) = then_do (unions m ps) (\<lambda>m'. unions m' qs)"
proof (induction ps arbitrary: m)
  case Nil
  then show ?case by (simp add: then_do_def)
next
  case (Cons pq ps)
  obtain p q where pq: "pq = (p, q)" by (cases pq)
  show ?case unfolding pq
    by (cases "union_uf m p q") (auto simp add: then_do_def Cons.IH split: sum.splits)
qed

lemma component_outside:
  assumes "same_component K ps a b" and "a \<noteq> b"
  shows "a \<in> K \<and> b \<in> K"
proof -
  let ?E = "united K ps \<union> (united K ps)\<inverse>"
  have E: "(x, y) \<in> united K ps \<Longrightarrow> x \<in> K \<and> y \<in> K" for x y by (auto simp add: united_def)
  from assms have ab: "(a, b) \<in> ?E\<^sup>*" by (simp add: same_component_def)
  from ab assms(2) have "b \<in> K" by (cases rule: rtranclE) (auto dest: E)
  moreover from ab assms(2) have "a \<in> K" by (cases rule: converse_rtranclE) (auto dest: E)
  ultimately show ?thesis by simp
qed

lemma unions_classes:
  assumes nn: "None \<notin> set ms"
  shows "\<exists>m. unions (UnionFind ms) ps = Some (Inr m) \<and> uf_inv m \<and> dom m = set ms
     \<and> (\<forall>a b. same_class m a b \<longleftrightarrow> a \<in> set ms \<and> b \<in> set ms \<and> same_component (set ms) ps a b)"
proof (induction ps rule: rev_induct)
  case Nil
  have "same_class (UnionFind ms) a b \<longleftrightarrow> a \<in> set ms \<and> b \<in> set ms \<and> same_component (set ms) [] a b" for a b
    by (auto simp add: same_class_def UnionFind_root_of same_component_def united_def)
  then show ?case by (simp add: UnionFind_inv UnionFind_dom)
next
  case (snoc pq ps)
  obtain p q where pq: "pq = (p, q)" by (cases pq)
  let ?K = "set ms"
  from snoc obtain m where m: "unions (UnionFind ms) ps = Some (Inr m)" "uf_inv m" "dom m = ?K"
    and cl: "\<And>a b. same_class m a b \<longleftrightarrow> a \<in> ?K \<and> b \<in> ?K \<and> same_component ?K ps a b" by blast
  from union_spec[OF m(2), of p q] obtain m' where m': "union_uf m p q = Some (Inr m')" "uf_inv m'" "dom m' = ?K"
    and cl': "\<And>a b. same_class m' a b \<longleftrightarrow>
           same_class m a b \<or> (same_class m a p \<and> same_class m q b) \<or> (same_class m a q \<and> same_class m p b)"
    using m(3) nn by auto
  have u: "unions (UnionFind ms) (ps @ [pq]) = Some (Inr m')"
    unfolding unions_append pq by (simp add: m(1) m'(1) then_do_def)
  let ?E = "united ?K ps \<union> (united ?K ps)\<inverse>"
  let ?E' = "united ?K (ps @ [pq]) \<union> (united ?K (ps @ [pq]))\<inverse>"
  have EE': "?E \<subseteq> ?E'" by (auto simp add: united_def)
  have E'cases: "(x, y) \<in> ?E' \<Longrightarrow> (x, y) \<in> ?E \<or> (p \<in> ?K \<and> q \<in> ?K \<and> ((x, y) = (p, q) \<or> (x, y) = (q, p)))" for x y
    by (auto simp add: united_def pq)
  have EK: "(x, y) \<in> ?E \<Longrightarrow> x \<in> ?K \<and> y \<in> ?K" for x y by (auto simp add: united_def)
  have mono: "(x, y) \<in> ?E\<^sup>* \<Longrightarrow> (x, y) \<in> ?E'\<^sup>*" for x y
    using rtrancl_mono[OF EE'] by blast
  have refl': "same_class m' x x" if "x \<in> ?K" for x
    using that m'(2,3) unfolding uf_inv_def by (intro same_class_refl) auto
  have "same_class m' a b \<longleftrightarrow> a \<in> ?K \<and> b \<in> ?K \<and> same_component ?K (ps @ [pq]) a b" for a b
  proof
    assume s: "same_class m' a b"
    then have ab: "a \<in> ?K" "b \<in> ?K" using m'(3) by (auto dest: same_class_dom)
    from s cl' consider "same_class m a b" | "same_class m a p" "same_class m q b" | "same_class m a q" "same_class m p b"
      by blast
    then have "(a, b) \<in> ?E'\<^sup>*"
    proof cases
      case 1
      then show ?thesis using cl mono by (simp add: same_component_def)
    next
      case 2
      then have "(a, p) \<in> ?E'\<^sup>*" "(q, b) \<in> ?E'\<^sup>*" and pqK: "p \<in> ?K" "q \<in> ?K"
        using cl mono by (simp_all add: same_component_def)
      moreover from pqK have "(p, q) \<in> ?E'" by (simp add: united_def pq)
      ultimately show ?thesis by (meson rtrancl.rtrancl_into_rtrancl rtrancl_trans)
    next
      case 3
      then have "(a, q) \<in> ?E'\<^sup>*" "(p, b) \<in> ?E'\<^sup>*" and pqK: "p \<in> ?K" "q \<in> ?K"
        using cl mono by (simp_all add: same_component_def)
      moreover from pqK have "(q, p) \<in> ?E'" by (simp add: united_def pq)
      ultimately show ?thesis by (meson rtrancl.rtrancl_into_rtrancl rtrancl_trans)
    qed
    with ab show "a \<in> ?K \<and> b \<in> ?K \<and> same_component ?K (ps @ [pq]) a b"
      by (simp add: same_component_def)
  next
    assume h: "a \<in> ?K \<and> b \<in> ?K \<and> same_component ?K (ps @ [pq]) a b"
    then have "(a, b) \<in> ?E'\<^sup>*" by (simp add: same_component_def)
    then have "b \<in> ?K \<and> same_class m' a b"
    proof (induction rule: rtrancl_induct)
      case base
      with h refl' show ?case by simp
    next
      case (step y z)
      from E'cases[OF step.hyps(2)] have "z \<in> ?K \<and> same_class m' y z"
      proof
        assume e: "(y, z) \<in> ?E"
        then have yz: "y \<in> ?K" "z \<in> ?K" using EK by blast+
        from e have "(y, z) \<in> ?E\<^sup>*" by blast
        with yz have "same_class m y z" using cl by (simp add: same_component_def)
        with yz cl' show ?thesis by blast
      next
        assume e: "p \<in> ?K \<and> q \<in> ?K \<and> ((y, z) = (p, q) \<or> (y, z) = (q, p))"
        then have "same_class m p p" "same_class m q q" using cl by (simp_all add: same_component_def)
        with e cl' show ?thesis by auto
      qed
      with step.IH show ?case by (blast intro: same_class_trans)
    qed
    then show "same_class m' a b" by simp
  qed
  with u m' show ?case by blast
qed

text \<open>
  Claim C2, amended. After any sequence of \<open>union\<close> calls on a structure built from
  keys \<open>ms\<close> none of which is \<open>None\<close>, for keys \<open>a\<close> and \<open>b\<close> that are not two different
  untracked keys, \<open>connected\<close> returns whether \<open>a\<close> and \<open>b\<close> are in the same component of
  the reference relation; and \<open>find\<close> on a key never inserted returns \<open>(None, 0)\<close> and
  leaves the dictionary as it is. The keys passed to \<open>union\<close>, \<open>connected\<close> and \<open>find\<close> are
  any keys, \<open>None\<close> included.
\<close>

theorem connected_iff_component:
  assumes nn: "None \<notin> set ms" and ab: "a \<in> set ms \<or> b \<in> set ms \<or> a = b"
  shows "\<exists>m m'. unions (UnionFind ms) ps = Some (Inr m)
     \<and> connected m a b = Some (Inr (m', same_component (set ms) ps a b))
     \<and> (\<forall>k. k \<notin> set ms \<longrightarrow> find_uf m k = Some (Inr (m, None, 0)))"
proof -
  from unions_classes[OF nn, of ps] obtain m where m: "unions (UnionFind ms) ps = Some (Inr m)" "uf_inv m" "dom m = set ms"
    and cl: "\<And>a b. same_class m a b \<longleftrightarrow> a \<in> set ms \<and> b \<in> set ms \<and> same_component (set ms) ps a b"
    by blast
  from connected_spec[OF m(2), of a b] obtain m'
    where c: "connected m a b = Some (Inr (m', same_class m a b \<or> (a \<notin> dom m \<and> b \<notin> dom m)))" by blast
  have "(same_class m a b \<or> (a \<notin> dom m \<and> b \<notin> dom m)) = same_component (set ms) ps a b"
  proof (cases "a = b")
    case True
    then have "same_component (set ms) ps a b" by (simp add: same_component_def)
    with True cl[of a b] m(3) show ?thesis by auto
  next
    case False
    with ab component_outside[of "set ms" ps a b] cl[of a b] m(3) show ?thesis by auto
  qed
  with c have "connected m a b = Some (Inr (m', same_component (set ms) ps a b))" by simp
  moreover have "find_uf m k = Some (Inr (m, None, 0))" if "k \<notin> set ms" for k
    using that m(3) by (intro find_absent) simp
  ultimately show ?thesis using m(1) by blast
qed

text \<open>
  Witness for the amended C2: keys 1 to 4, unions of 1 with 2 and of 3 with 4, queried
  at 1 and 2; key 5 was never inserted.
\<close>

theorem connected_iff_component_witness:
  "None \<notin> set [Some (1::int), Some 2, Some 3, Some 4]
   \<and> (Some (1::int) \<in> set [Some 1, Some 2, Some 3, Some 4] \<or> Some (2::int) \<in> set [Some 1, Some 2, Some 3, Some 4]
        \<or> Some (1::int) = Some 2)
   \<and> (\<exists>m m'. unions (UnionFind [Some (1::int), Some 2, Some 3, Some 4]) [(Some 1, Some 2), (Some 3, Some 4)] = Some (Inr m)
     \<and> connected m (Some 1) (Some 2)
          = Some (Inr (m', same_component (set [Some (1::int), Some 2, Some 3, Some 4])
                [(Some 1, Some 2), (Some 3, Some 4)] (Some 1) (Some 2)))
     \<and> find_uf m (Some 5) = Some (Inr (m, None, 0)))"
proof -
  have n: "None \<notin> set [Some (1::int), Some 2, Some 3, Some 4]" by simp
  have h: "Some (1::int) \<in> set [Some 1, Some 2, Some 3, Some 4] \<or> Some (2::int) \<in> set [Some 1, Some 2, Some 3, Some 4]
        \<or> Some (1::int) = Some 2" by simp
  have "Some (5::int) \<notin> set [Some 1, Some 2, Some 3, Some 4]" by simp
  with connected_iff_component[OF n h, of "[(Some 1, Some 2), (Some 3, Some 4)]"] n h show ?thesis by blast
qed

text \<open>
  Counterexample to C2 as stated: with keys 1 and 2 united, \<open>connected\<close> is true of the
  untracked keys 3 and 4, which the reference relation does not relate.
\<close>

theorem connected_untracked_counterexample:
  "unions (UnionFind [Some (1::int), Some 2]) [(Some 1, Some 2)]
     = Some (Inr [Some 1 \<mapsto> (Some 2, 2), Some 2 \<mapsto> (Some 2, 2)])
   \<and> connected [Some (1::int) \<mapsto> (Some 2, 2), Some 2 \<mapsto> (Some 2, 2)] (Some 3) (Some 4)
     = Some (Inr ([Some 1 \<mapsto> (Some 2, 2), Some 2 \<mapsto> (Some 2, 2)], True))
   \<and> \<not> same_component (set [Some (1::int), Some 2]) [(Some 1, Some 2)] (Some 3) (Some 4)"
proof -
  have "unions (UnionFind [Some (1::int), Some 2]) [(Some 1, Some 2)]
     = Some (Inr [Some 1 \<mapsto> (Some 2, 2), Some 2 \<mapsto> (Some 2, 2)])"
    by (simp add: UnionFind_def union_uf_def find_uf_def then_do_def find_loop.simps eval_nat_numeral)
  moreover have "connected [Some (1::int) \<mapsto> (Some 2, 2), Some 2 \<mapsto> (Some 2, 2)] (Some 3) (Some 4)
     = Some (Inr ([Some 1 \<mapsto> (Some 2, 2), Some 2 \<mapsto> (Some 2, 2)], True))"
    by (simp add: connected_def find_uf_def then_do_def)
  moreover have "\<not> same_component (set [Some (1::int), Some 2]) [(Some 1, Some 2)] (Some 3) (Some 4)"
    using component_outside[of "set [Some (1::int), Some 2]" "[(Some 1, Some 2)]" "Some 3" "Some 4"] by auto
  ultimately show ?thesis by blast
qed

text \<open>
  What the amended C2 leaves out: with the key \<open>None\<close> tracked, \<open>find(None)\<close> returns
  \<open>(None, 1)\<close>, \<open>union\<close> takes that leader for an absent key and returns without
  registering the pair, and \<open>connected\<close> is false of the two keys just passed to \<open>union\<close>.
\<close>

lemma union_with_none_key:
  "find_uf (UnionFind [None, Some (1::int)]) None = Some (Inr (UnionFind [None, Some 1], None, 1))
   \<and> union_uf (UnionFind [None, Some (1::int)]) None (Some 1) = Some (Inr (UnionFind [None, Some 1]))
   \<and> connected (UnionFind [None, Some (1::int)]) None (Some 1) = Some (Inr (UnionFind [None, Some 1], False))"
  by (simp add: UnionFind_def union_uf_def connected_def find_uf_def then_do_def find_loop.simps)

text \<open>
  Claim C6, amended. When the walk from \<open>k\<close> ends at the representative \<open>r\<close>, \<open>find\<close>
  returns \<open>r\<close> with the count stored at \<open>r\<close>, and every key the walk passed now holds the
  entry its own leader held before the call (so it points at its former leader's leader);
  it holds the pair of \<open>r\<close> and its count when its leader was \<open>r\<close>. Other keys are untouched.
\<close>

theorem find_path_halving:
  assumes "root_of m k r"
  shows "\<exists>m' n. find_uf m k = Some (Inr (m', r, n)) \<and> m r = Some (r, n)
     \<and> (\<forall>j q i. visits m k j \<and> m j = Some (q, i) \<longrightarrow> m' j = m q)
     \<and> (\<forall>j i. visits m k j \<and> m j = Some (r, i) \<longrightarrow> m' j = Some (r, n))
     \<and> (\<forall>j. \<not> visits m k j \<longrightarrow> m' j = m j)"
proof -
  from find_present[OF assms] obtain n where n: "m r = Some (r, n)"
    and f: "find_uf m k = Some (Inr (halved m k, r, n))" by blast
  have "halved m k j = m q" if "visits m k j" "m j = Some (q, i)" for j q i
    using that by (simp add: halved_def)
  moreover have "halved m k j = Some (r, n)" if "visits m k j" "m j = Some (r, i)" for j i
    using that n by (simp add: halved_def)
  moreover have "halved m k j = m j" if "\<not> visits m k j" for j
    using that by (simp add: halved_def)
  ultimately show ?thesis using f n by blast
qed

text \<open>
  Witness for the amended C6: the chain 1, 2, 3 with representative 3.
\<close>

theorem find_path_halving_witness:
  "root_of [Some (1::int) \<mapsto> (Some 2, 2), Some 2 \<mapsto> (Some 3, 3), Some 3 \<mapsto> (Some 3, 3)] (Some 1) (Some 3)
   \<and> (\<exists>m'. find_uf [Some (1::int) \<mapsto> (Some 2, 2), Some 2 \<mapsto> (Some 3, 3), Some 3 \<mapsto> (Some 3, 3)] (Some 1)
            = Some (Inr (m', Some 3, 3))
          \<and> m' (Some 1) = Some (Some 3, 3) \<and> m' (Some 2) = Some (Some 3, 3))"
proof -
  let ?m = "[Some (1::int) \<mapsto> (Some (2::int), 2::nat), Some 2 \<mapsto> (Some 3, 3), Some 3 \<mapsto> (Some 3, 3)]"
  have 3: "root_of ?m (Some 3) (Some 3)" by (rule root_of.root[where n = 3]) simp
  have 2: "root_of ?m (Some 2) (Some 3)" by (rule root_of.link[where q = "Some 3" and n = 3]) (simp_all add: 3)
  have 1: "root_of ?m (Some 1) (Some 3)" by (rule root_of.link[where q = "Some 2" and n = 2]) (simp_all add: 2)
  from find_path_halving[OF 1] obtain m' n where f: "find_uf ?m (Some 1) = Some (Inr (m', Some 3, n))"
    and r: "?m (Some 3) = Some (Some 3, n)"
    and h: "\<forall>j q i. visits ?m (Some 1) j \<and> ?m j = Some (q, i) \<longrightarrow> m' j = ?m q"
    by blast
  from r have n: "n = 3" by simp
  have v1: "visits ?m (Some 1) (Some 1)" by (rule visits.here)
  have v2: "visits ?m (Some 1) (Some 2)"
    by (rule visits.onward[where q = "Some 2" and n = 2]) (simp_all add: visits.here)
  have "m' (Some 1) = ?m (Some 2)" using h v1 by simp
  moreover have "m' (Some 2) = ?m (Some 3)" using h v2 by simp
  ultimately have "m' (Some 1) = Some (Some 3, 3)" "m' (Some 2) = Some (Some 3, 3)" by simp_all
  with f n have "\<exists>m'. find_uf ?m (Some 1) = Some (Inr (m', Some 3, 3))
      \<and> m' (Some 1) = Some (Some 3, 3) \<and> m' (Some 2) = Some (Some 3, 3)"
    by (intro exI[of _ m']) simp
  with 1 show ?thesis by (rule conjI)
qed

text \<open>
  Counterexample to C6 as stated: after the unions of 1 with 2, 2 with 3 and 3 with 4,
  \<open>find\<close> of 1 returns the representative 4 with count 4, and key 1, the first key on the
  walk, is left at \<open>(3, 3)\<close>.
\<close>

theorem find_not_full_compression_counterexample:
  "unions (UnionFind [Some (1::int), Some 2, Some 3, Some 4]) [(Some 1, Some 2), (Some 2, Some 3), (Some 3, Some 4)]
     = Some (Inr [Some 1 \<mapsto> (Some 2, 2), Some 2 \<mapsto> (Some 3, 3), Some 3 \<mapsto> (Some 4, 4), Some 4 \<mapsto> (Some 4, 4)])
   \<and> find_uf [Some (1::int) \<mapsto> (Some 2, 2), Some 2 \<mapsto> (Some 3, 3), Some 3 \<mapsto> (Some 4, 4), Some 4 \<mapsto> (Some 4, 4)] (Some 1)
       = Some (Inr ([Some 1 \<mapsto> (Some 3, 3), Some 2 \<mapsto> (Some 4, 4), Some 3 \<mapsto> (Some 4, 4), Some 4 \<mapsto> (Some 4, 4)],
            Some 4, 4))
   \<and> visits [Some (1::int) \<mapsto> (Some (2::int), 2::nat), Some 2 \<mapsto> (Some 3, 3), Some 3 \<mapsto> (Some 4, 4), Some 4 \<mapsto> (Some 4, 4)]
         (Some 1) (Some 1)
   \<and> [Some (1::int) \<mapsto> (Some (3::int), 3::nat), Some 2 \<mapsto> (Some 4, 4), Some 3 \<mapsto> (Some 4, 4), Some 4 \<mapsto> (Some 4, 4)] (Some 1)
       \<noteq> Some (Some 4, 4)"
proof -
  have "unions (UnionFind [Some (1::int), Some 2, Some 3, Some 4]) [(Some 1, Some 2), (Some 2, Some 3), (Some 3, Some 4)]
     = Some (Inr [Some 1 \<mapsto> (Some 2, 2), Some 2 \<mapsto> (Some 3, 3), Some 3 \<mapsto> (Some 4, 4), Some 4 \<mapsto> (Some 4, 4)])"
    by (simp add: UnionFind_def union_uf_def find_uf_def then_do_def find_loop.simps eval_nat_numeral)
  moreover have "find_uf [Some (1::int) \<mapsto> (Some 2, 2), Some 2 \<mapsto> (Some 3, 3), Some 3 \<mapsto> (Some 4, 4), Some 4 \<mapsto> (Some 4, 4)] (Some 1)
       = Some (Inr ([Some 1 \<mapsto> (Some 3, 3), Some 2 \<mapsto> (Some 4, 4), Some 3 \<mapsto> (Some 4, 4), Some 4 \<mapsto> (Some 4, 4)],
            Some 4, 4))"
    by (simp add: find_uf_def then_do_def find_loop.simps eval_nat_numeral fun_eq_iff)
  moreover have "visits [Some (1::int) \<mapsto> (Some (2::int), 2::nat), Some 2 \<mapsto> (Some 3, 3), Some 3 \<mapsto> (Some 4, 4), Some 4 \<mapsto> (Some 4, 4)]
         (Some 1) (Some 1)"
    by (rule visits.here)
  ultimately show ?thesis by simp
qed

text \<open>
  Claim C10. For two keys that are not in the dictionary, both finds return \<open>(None, 0)\<close>
  and \<open>connected\<close> returns true.
\<close>

theorem connected_untracked:
  assumes "a \<notin> dom m" and "b \<notin> dom m"
  shows "find_uf m a = Some (Inr (m, None, 0)) \<and> find_uf m b = Some (Inr (m, None, 0))
     \<and> connected m a b = Some (Inr (m, True))"
  using assms by (simp add: connected_def then_do_def find_absent)

text \<open>
  Witness for C10: the untracked keys 3 and 4 of a structure built from 1 and 2.
\<close>

theorem connected_untracked_witness:
  "Some (3::int) \<notin> dom (UnionFind [Some 1, Some 2]) \<and> Some (4::int) \<notin> dom (UnionFind [Some 1, Some 2])
   \<and> connected (UnionFind [Some (1::int), Some 2]) (Some 3) (Some 4) = Some (Inr (UnionFind [Some 1, Some 2], True))"
proof -
  have h: "Some (3::int) \<notin> dom (UnionFind [Some 1, Some 2])" "Some (4::int) \<notin> dom (UnionFind [Some 1, Some 2])"
    by (simp_all add: UnionFind_dom)
  from connected_untracked[OF h] h show ?thesis by simp
qed

section \<open>Properties of the search\<close>

lemma connect_cells_unions:
  "connect_cells uf cells = unions uf (map (map_prod Some Some) (neighbour_pairs cells))"
proof (induction uf cells rule: connect_cells.induct)
  case (1 uf)
  then show ?case by (simp add: neighbour_pairs_def)
next
  case (2 uf x y cells)
  have np: "neighbour_pairs ((x, y) # cells) =
      ((x, y), (x - 1, y)) # ((x, y), (x + 1, y)) # ((x, y), (x, y - 1)) # ((x, y), (x, y + 1)) # neighbour_pairs cells"
    by (simp add: neighbour_pairs_def)
  show ?case unfolding np connect_cells.simps list.map map_prod_simp unions.simps
    by (intro then_do_cong refl) (rule "2.IH")
qed

lemma united_neighbour_pairs:
  "united (set cells) (neighbour_pairs cells) = neighbours_in (set cells)"
  by (auto simp add: united_def neighbour_pairs_def neighbours_in_def)

lemma united_image:
  assumes "inj f"
  shows "united (f ` K) (map (map_prod f f) ps) = map_prod f f ` united K ps"
  using assms by (auto simp add: united_def inj_eq image_iff) force

lemma rtrancl_image:
  assumes i: "inj f"
  shows "(f a, y) \<in> (map_prod f f ` R)\<^sup>* \<longleftrightarrow> (\<exists>b. y = f b \<and> (a, b) \<in> R\<^sup>*)"
proof
  assume "(f a, y) \<in> (map_prod f f ` R)\<^sup>*"
  then show "\<exists>b. y = f b \<and> (a, b) \<in> R\<^sup>*"
  proof (induction rule: rtrancl_induct)
    case base
    then show ?case by blast
  next
    case (step y z)
    then obtain b where b: "y = f b" "(a, b) \<in> R\<^sup>*" by blast
    from step(2) obtain u v where uv: "y = f u" "z = f v" "(u, v) \<in> R" by auto
    from b(1) uv(1) i have "u = b" by (simp add: inj_eq)
    with b(2) uv(3) have "(a, v) \<in> R\<^sup>*" by simp
    with uv(2) show ?case by blast
  qed
next
  assume "\<exists>b. y = f b \<and> (a, b) \<in> R\<^sup>*"
  then obtain b where b: "y = f b" "(a, b) \<in> R\<^sup>*" by blast
  from b(2) have "(f a, f b) \<in> (map_prod f f ` R)\<^sup>*"
  proof (induction rule: rtrancl_induct)
    case base
    then show ?case by simp
  next
    case (step u v)
    from step(2) have "(f u, f v) \<in> map_prod f f ` R" by force
    with step(3) show ?case by (rule rtrancl_into_rtrancl)
  qed
  with b(1) show "(f a, y) \<in> (map_prod f f ` R)\<^sup>*" by simp
qed

lemma same_component_image:
  assumes i: "inj f"
  shows "same_component (f ` K) (map (map_prod f f) ps) (f a) y \<longleftrightarrow> (\<exists>b. y = f b \<and> same_component K ps a b)"
proof -
  have "united (f ` K) (map (map_prod f f) ps) \<union> (united (f ` K) (map (map_prod f f) ps))\<inverse>
      = map_prod f f ` (united K ps \<union> (united K ps)\<inverse>)"
    unfolding united_image[OF i] by force
  then show ?thesis unfolding same_component_def by (simp add: rtrancl_image[OF i])
qed

lemma neighbours_in_sym: "(neighbours_in K)\<inverse> = neighbours_in K"
  by (auto simp add: neighbours_in_def)

lemma same_component_neighbours:
  "same_component (set cells) (neighbour_pairs cells) a b \<longleftrightarrow> (a, b) \<in> (neighbours_in (set cells))\<^sup>*"
  by (simp add: same_component_def united_neighbour_pairs neighbours_in_sym)

lemma connected_test:
  assumes d: "distinct cells" and ne: "cells \<noteq> []"
  shows "then_do (connect_cells (UnionFind (map Some cells)) cells) (\<lambda>uf.
           then_do (find_uf uf (Some (last cells))) (\<lambda>(uf, lead, n). Some (Inr (\<not> n \<noteq> length cells))))
         = Some (Inr (connected_set (set cells)))"
proof -
  let ?K = "set cells"
  let ?R = "(neighbours_in ?K)\<^sup>*"
  let ?ps = "map (map_prod Some Some) (neighbour_pairs cells)"
  have i: "inj (Some :: int \<times> int \<Rightarrow> (int \<times> int) option)" by simp
  have nn: "None \<notin> set (map Some cells)" by auto
  have sK: "set (map Some cells) = Some ` ?K" by simp
  from unions_classes[OF nn, of ?ps] obtain m
    where m: "unions (UnionFind (map Some cells)) ?ps = Some (Inr m)" "uf_inv m" "dom m = Some ` ?K"
      and cl0: "\<And>a b. same_class m a b \<longleftrightarrow> a \<in> Some ` ?K \<and> b \<in> Some ` ?K \<and> same_component (Some ` ?K) ?ps a b"
    unfolding sK by blast
  have cl: "same_class m (Some a) y \<longleftrightarrow> a \<in> ?K \<and> (\<exists>b \<in> ?K. y = Some b \<and> (a, b) \<in> ?R)" for a y
    unfolding cl0 same_component_image[OF i] same_component_neighbours by auto
  from ne have lK: "last cells \<in> ?K" by simp
  with m(3) have "Some (last cells) \<in> dom m" by simp
  with find_spec[OF m(2), of "Some (last cells)"] obtain m1 r n
    where f: "find_uf m (Some (last cells)) = Some (Inr (m1, r, n))" and r: "root_of m (Some (last cells)) r"
      and rn: "m r = Some (r, n)" by auto
  from m(2) rn have n: "n = card {k. root_of m k r}" unfolding uf_inv_def by blast
  have sym: "(a, b) \<in> ?R \<Longrightarrow> (b, a) \<in> ?R" for a b
    using rtrancl_converse[of "neighbours_in ?K"] unfolding neighbours_in_sym
    by (metis converse_iff)
  have cls: "{k. root_of m k r} = Some ` {k \<in> ?K. (k, last cells) \<in> ?R}"
  proof -
    have "root_of m k r \<longleftrightarrow> same_class m (Some (last cells)) k" for k
      using r unfolding same_class_def by (metis root_of_fun)
    then have "root_of m k r \<longleftrightarrow> (\<exists>b \<in> ?K. k = Some b \<and> (b, last cells) \<in> ?R)" for k
      unfolding cl using lK sym by blast
    then show ?thesis by blast
  qed
  have n': "n = card {k \<in> ?K. (k, last cells) \<in> ?R}"
    unfolding n cls by (rule card_image) simp
  have "(n = length cells) = connected_set ?K"
  proof
    assume "n = length cells"
    with n' d have "card {k \<in> ?K. (k, last cells) \<in> ?R} = card ?K" by (simp add: distinct_card)
    moreover have "{k \<in> ?K. (k, last cells) \<in> ?R} \<subseteq> ?K" by blast
    ultimately have "{k \<in> ?K. (k, last cells) \<in> ?R} = ?K" by (intro card_subset_eq) simp_all
    then have all: "\<forall>k \<in> ?K. (k, last cells) \<in> ?R" by blast
    show "connected_set ?K" unfolding connected_set_def
    proof (intro ballI)
      fix c1 c2 assume "c1 \<in> ?K" "c2 \<in> ?K"
      with all have "(c1, last cells) \<in> ?R" "(last cells, c2) \<in> ?R" using sym by blast+
      then show "(c1, c2) \<in> ?R" by (rule rtrancl_trans)
    qed
  next
    assume "connected_set ?K"
    with lK have "{k \<in> ?K. (k, last cells) \<in> ?R} = ?K" unfolding connected_set_def by blast
    with n' d show "n = length cells" by (simp add: distinct_card)
  qed
  then show ?thesis
    unfolding connect_cells_unions by (simp add: m(1) f then_do_def)
qed

lemma connectedness_holds_eq:
  assumes "valid_order iteration"
  shows "connectedness_holds iteration board =
     (case size_b board of Inl e \<Rightarrow> Some (Inl e)
      | Inr (mx, my) \<Rightarrow>
          (case nonblank_cells board (grid mx my) of Inl e \<Rightarrow> Some (Inl e)
           | Inr generated \<Rightarrow> Some (Inr (connected_set (set generated)))))"
proof -
  have "(let cells = iteration generated in
          if length cells > 0 then
            then_do (connect_cells (UnionFind (map Some cells)) cells) (\<lambda>uf.
            then_do (find_uf uf (Some (last cells))) (\<lambda>(uf, lead, n). Some (Inr (\<not> n \<noteq> length cells))))
          else Some (Inr True)) = Some (Inr (connected_set (set generated)))" for generated
  proof (cases "iteration generated = []")
    case True
    with assms have "set generated = {}" unfolding valid_order_def by (metis set_empty)
    with True show ?thesis by (simp add: connected_set_def)
  next
    case False
    from assms have d: "distinct (iteration generated)" and s: "set (iteration generated) = set generated"
      unfolding valid_order_def by blast+
    from connected_test[OF d False] False s show ?thesis by (simp add: Let_def)
  qed
  then show ?thesis
    unfolding connectedness_holds_def grid_def by (simp split: sum.splits prod.splits)
qed

lemma nonblank_cells_rect:
  assumes "rectangular b" "lines b \<noteq> []"
  shows "nonblank_cells b cs = Inr (filter (\<lambda>c. \<not> blank_at b c) cs)"
proof (induction cs)
  case Nil
  then show ?case by simp
next
  case (Cons c cs)
  obtain x y where c: "c = (x, y)" by (cases c)
  show ?case unfolding c
    by (simp add: Cons.IH blank_at_def is_blank_rect[OF assms])
qed

lemma connectedness_holds_good:
  assumes v: "valid_order iteration" and r: "rectangular b" and ne: "lines b \<noteq> []"
  shows "connectedness_holds iteration b = Some (Inr (region_connected b))"
proof -
  have sz: "size_b b = Inr (length (lines b ! 0), length (lines b))"
    using ne by (simp add: size_b_def py_getitem_in)
  have g: "grid (length (lines b ! 0)) (length (lines b)) = all_cells b"
    by (simp add: all_cells_def grid_def sz)
  have "set (filter (\<lambda>c. \<not> blank_at b c) (all_cells b)) = nonblank b"
    by (auto simp add: nonblank_def set_cells[OF ne])
  then show ?thesis
    unfolding connectedness_holds_eq[OF v] sz region_connected_def
    by (simp add: g nonblank_cells_rect[OF r ne])
qed

lemma no_adjacent_blanks_iff:
  assumes r: "rectangular b" and ne: "lines b \<noteq> []"
  shows "no_adjacent_blanks b \<longleftrightarrow>
     (\<forall>x y. blank_at b (x, y) \<longrightarrow> \<not> blank_at b (x + 1, y) \<and> \<not> blank_at b (x, y + 1))"
proof
  assume "no_adjacent_blanks b"
  then show "\<forall>x y. blank_at b (x, y) \<longrightarrow> \<not> blank_at b (x + 1, y) \<and> \<not> blank_at b (x, y + 1)"
    using no_adjacent_blanksD(1,2)[OF r] by blast
next
  assume "\<forall>x y. blank_at b (x, y) \<longrightarrow> \<not> blank_at b (x + 1, y) \<and> \<not> blank_at b (x, y + 1)"
  then show "no_adjacent_blanks b"
    unfolding no_adjacent_blanks_def list_all_iff by blast
qed

lemma blank_at_rect:
  assumes "rectangular b" "lines b \<noteq> []"
  shows "blank_at b (x, y) \<longleftrightarrow> in_range b x y \<and> lines b ! nat y ! nat x = BLANK"
  by (simp add: blank_at_def is_blank_rect[OF assms])

lemma in_range_dims:
  assumes "length (lines b') = length (lines b)" "length (lines b' ! 0) = length (lines b ! 0)"
  shows "in_range b' x y = in_range b x y"
  using assms by (auto simp add: in_range_def)

lemma blank_step:
  assumes r: "rectangular b" and i: "in_range b x y" and s: "blank b x y = Inr b2"
  shows "rectangular b2" and "lines b2 \<noteq> []"
    and "length (lines b2) = length (lines b)" and "length (lines b2 ! 0) = length (lines b ! 0)"
    and "\<And>u v. blank_at b2 (u, v) \<longleftrightarrow> blank_at b (u, v) \<or> (u, v) = (x, y)"
    and "\<And>u v. in_range b u v \<Longrightarrow> (u, v) \<noteq> (x, y) \<Longrightarrow> getitem b2 (u, v) = getitem b (u, v)"
    and "\<not> blank_at b (x - 1, y)" "\<not> blank_at b (x + 1, y)" "\<not> blank_at b (x, y - 1)" "\<not> blank_at b (x, y + 1)"
proof -
  have l: "lines b2 = (lines b)[nat y := (lines b ! nat y)[nat x := BLANK]]"
    using assms by (rule blank_rect_lines)
  show r2: "rectangular b2" using assms by (rule blank_rect_rectangular)
  from i have ne: "lines b \<noteq> []" and y: "0 \<le> y" "nat y < length (lines b)"
    and x: "0 \<le> x" "x < int (length (lines b ! 0))"
    by (auto simp add: in_range_def)
  have len: "length (lines b ! nat y) = length (lines b ! 0)" using r y(2) by (rule rectangular_nth)
  show ne2: "lines b2 \<noteq> []" using ne unfolding l by simp
  show d1: "length (lines b2) = length (lines b)" unfolding l by simp
  show d2: "length (lines b2 ! 0) = length (lines b ! 0)"
    using ne len unfolding l by (cases "nat y = 0") simp_all
  note ir = in_range_dims[OF d1 d2]
  show "blank_at b2 (u, v) \<longleftrightarrow> blank_at b (u, v) \<or> (u, v) = (x, y)" for u v
  proof (cases "in_range b u v")
    case False
    with i have "(u, v) \<noteq> (x, y)" by auto
    with False show ?thesis by (simp add: blank_at_rect[OF r ne] blank_at_rect[OF r2 ne2] ir)
  next
    case True
    then have v: "0 \<le> v" "nat v < length (lines b)" and u: "0 \<le> u" "u < int (length (lines b ! 0))"
      by (auto simp add: in_range_def)
    have lenv: "length (lines b ! nat v) = length (lines b ! 0)" using r v(2) by (rule rectangular_nth)
    have "lines b2 ! nat v ! nat u = (if (u, v) = (x, y) then BLANK else lines b ! nat v ! nat u)"
    proof (cases "v = y")
      case vy: True
      show ?thesis
      proof (cases "u = x")
        case True
        with vy y x len show ?thesis by (simp add: l)
      next
        case False
        with u x have "nat u \<noteq> nat x" by simp
        with vy y False show ?thesis by (simp add: l)
      qed
    next
      case False
      with v y have "nat v \<noteq> nat y" by simp
      with False show ?thesis by (simp add: l)
    qed
    with True show ?thesis by (auto simp add: blank_at_rect[OF r ne] blank_at_rect[OF r2 ne2] ir)
  qed
  show "getitem b2 (u, v) = getitem b (u, v)" if "in_range b u v" "(u, v) \<noteq> (x, y)" for u v
  proof -
    from that(1) have v: "0 \<le> v" "v < int (length (lines b))" and u: "0 \<le> u" "u < int (length (lines b ! 0))"
      by (simp_all add: in_range_def)
    have g: "py_getitem (lines b2) v = Inr (lines b2 ! nat v)" "py_getitem (lines b) v = Inr (lines b ! nat v)"
      using v by (simp_all add: py_getitem_in l)
    show ?thesis
    proof (cases "v = y")
      case True
      with that(2) have "u \<noteq> x" by simp
      with x u have "nat u \<noteq> nat x" by simp
      with True y u len show ?thesis
        unfolding getitem_def prod.case g by (simp add: l py_getitem_in)
    next
      case False
      with y v have "nat v \<noteq> nat y" by simp
      then show ?thesis unfolding getitem_def prod.case g by (simp add: l)
    qed
  qed
  from s show "\<not> blank_at b (x - 1, y)" "\<not> blank_at b (x + 1, y)" "\<not> blank_at b (x, y - 1)" "\<not> blank_at b (x, y + 1)"
    unfolding blank_rect[OF r i] by (auto simp add: blank_at_rect[OF r ne] split: if_splits)
qed

lemma extends_refl: "extends b b"
  by (simp add: extends_def)

lemma extends_trans:
  assumes "extends a b" "extends b c"
  shows "extends a c"
proof -
  from assms have d: "length (lines b) = length (lines a)" "length (lines b ! 0) = length (lines a ! 0)"
    by (simp_all add: extends_def)
  note ir = in_range_dims[OF d]
  from assms show ?thesis unfolding extends_def ir by auto
qed

lemma extends_in_range: "extends b b' \<Longrightarrow> in_range b' x y = in_range b x y"
  by (rule in_range_dims) (simp_all add: extends_def)

lemma extends_select:
  assumes "extends b b'" and "lines b \<noteq> []"
  shows "select sel b' = select sel b"
proof -
  from assms have d: "length (lines b') = length (lines b)" "length (lines b' ! 0) = length (lines b ! 0)"
    and ne: "lines b' \<noteq> []" by (auto simp add: extends_def)
  show ?thesis
    using d ne assms(2) by (cases sel) (simp_all add: row_def col_def py_getitem_in)
qed

lemma line_clean_extends:
  assumes "line_clean b cells" and "extends b b'"
  shows "line_clean b' cells"
  unfolding line_clean_def extends_in_range[OF assms(2)]
proof (intro ballI impI)
  fix c1 c2
  assume m: "c1 \<in> set cells" "c2 \<in> set cells"
    and h: "c1 \<noteq> c2 \<and> in_range b (fst c1) (snd c1) \<and> in_range b (fst c2) (snd c2)
        \<and> \<not> blank_at b' c1 \<and> \<not> blank_at b' c2"
  from assms(2) have e: "\<And>c. in_range b (fst c) (snd c) \<Longrightarrow> \<not> blank_at b' c
      \<Longrightarrow> \<not> blank_at b c \<and> getitem b' c = getitem b c"
    unfolding extends_def by (metis prod.collapse)
  from h e[of c1] e[of c2] have "\<not> blank_at b c1" "\<not> blank_at b c2"
    and g: "getitem b' c1 = getitem b c1" "getitem b' c2 = getitem b c2" by blast+
  with assms(1) m h have "getitem b c1 \<noteq> getitem b c2" unfolding line_clean_def by blast
  with g show "getitem b' c1 \<noteq> getitem b' c2" by simp
qed

lemma blank_good:
  assumes g: "good b" and i: "in_range b x y" and s: "blank b x y = Inr b2"
  shows "good b2" and "extends b b2"
proof -
  from g have r: "rectangular b" and ne: "lines b \<noteq> []" and adj: "no_adjacent_blanks b"
    by (simp_all add: good_def)
  note st = blank_step[OF r i s]
  from adj have a: "\<And>u v. blank_at b (u, v) \<Longrightarrow> \<not> blank_at b (u + 1, v) \<and> \<not> blank_at b (u, v + 1)"
    unfolding no_adjacent_blanks_iff[OF r ne] by blast
  have "\<not> blank_at b2 (u + 1, v) \<and> \<not> blank_at b2 (u, v + 1)" if h: "blank_at b2 (u, v)" for u v
  proof (cases "(u, v) = (x, y)")
    case True
    with st(8,10) show ?thesis unfolding st(5) by auto
  next
    case False
    with h have old: "blank_at b (u, v)" unfolding st(5) by blast
    have "(u + 1, v) = (x, y) \<Longrightarrow> False" using old st(7) by auto
    moreover have "(u, v + 1) = (x, y) \<Longrightarrow> False" using old st(9) by auto
    ultimately show ?thesis using a[OF old] unfolding st(5) by blast
  qed
  then have "no_adjacent_blanks b2" unfolding no_adjacent_blanks_iff[OF st(1,2)] by blast
  with st(1,2) show "good b2" by (simp add: good_def)
  show "extends b b2"
    unfolding extends_def using st(3,4,5,6) by auto
qed

lemma blank_all_good:
  assumes "good b" and "\<forall>c \<in> set cs. in_range b (fst c) (snd c)" and "blank_all b cs = Inr (Some b2)"
  shows "good b2 \<and> extends b b2"
  using assms
proof (induction cs arbitrary: b)
  case Nil
  then show ?case by (simp add: extends_refl)
next
  case (Cons c cs)
  obtain x y where c: "c = (x, y)" by (cases c)
  from Cons.prems(3) obtain b3 where b3: "blank b x y = Inr b3" and rest: "blank_all b3 cs = Inr (Some b2)"
    by (auto simp add: c split: sum.splits if_splits)
  from Cons.prems(2) have i: "in_range b x y" by (simp add: c)
  note bg = blank_good[OF Cons.prems(1) i b3]
  have "\<forall>c' \<in> set cs. in_range b3 (fst c') (snd c')"
    using Cons.prems(2) by (simp add: extends_in_range[OF bg(2)])
  from Cons.IH[OF bg(1) this rest] bg(2) show ?case by (blast intro: extends_trans)
qed

lemma cell_solid_in_range:
  assumes "rectangular b" and "cell_solid b c"
  shows "in_range b (fst c) (snd c)"
proof -
  obtain x y where c: "c = (x, y)" by (cases c)
  from assms(2) have y: "0 \<le> y" "y < int (length (lines b))" and x: "0 \<le> x" "x < int (length (lines b ! nat y))"
    by (simp_all add: cell_solid_def c)
  from y have "nat y < length (lines b)" by simp
  with assms(1) have "length (lines b ! nat y) = length (lines b ! 0)" by (intro rectangular_nth)
  with x y show ?thesis by (auto simp add: c in_range_def)
qed

lemma append_at_keys:
  "set (map fst (append_at counts k c)) = insert k (set (map fst counts))"
  "distinct (map fst counts) \<Longrightarrow> distinct (map fst (append_at counts k c))"
  by (induction counts k c rule: append_at.induct) auto

lemma stored_simps:
  "stored [] v = {}"
  "stored ((k, vs) # rest) v = (if k = v then set vs else {}) \<union> stored rest v"
  by (auto simp add: stored_def)

lemma append_at_stored:
  "stored (append_at counts k c) v = stored counts v \<union> (if k = v then {c} else {})"
  by (induction counts k c rule: append_at.induct) (simp_all add: stored_simps Un_ac insert_commute)

lemma group_cells_stored:
  "group_cells board cells counts0 = Inr counts \<Longrightarrow> distinct (map fst counts0) \<Longrightarrow>
     distinct (map fst counts) \<and>
     (\<forall>v. stored counts v = stored counts0 v
        \<union> {c \<in> set cells. is_blank board (fst c) (snd c) = Inr False \<and> getitem board c = Inr v})"
proof (induction board cells counts0 rule: group_cells.induct)
  case (1 board counts0)
  then show ?case by simp
next
  case (2 board x y cells counts0)
  from "2.prems" obtain bl where bl: "is_blank board x y = Inr bl"
    by (auto split: sum.splits)
  show ?case
  proof (cases bl)
    case True
    with "2.prems" bl have r: "group_cells board cells counts0 = Inr counts" by simp
    from "2.IH"(2)[OF bl _ r "2.prems"(2)] True bl show ?thesis by auto
  next
    case False
    with "2.prems" bl obtain v where v: "getitem board (x, y) = Inr v"
      and r: "group_cells board cells (append_at counts0 v (x, y)) = Inr counts"
      by (auto split: sum.splits)
    from "2.IH"(1)[OF bl _ v r append_at_keys(2)[OF "2.prems"(2)]] False
    have d: "distinct (map fst counts)" and st: "\<And>w. stored counts w = stored (append_at counts0 v (x, y)) w
        \<union> {c \<in> set cells. is_blank board (fst c) (snd c) = Inr False \<and> getitem board c = Inr w}"
      by simp_all
    have "stored counts w = stored counts0 w
        \<union> {c \<in> set ((x, y) # cells). is_blank board (fst c) (snd c) = Inr False \<and> getitem board c = Inr w}" for w
      unfolding st append_at_stored using bl v False by auto
    with d show ?thesis by blast
  qed
qed

lemma no_duplicates_clean:
  assumes grp: "group_cells board cells [] = Inr counts"
    and fnd: "List.find (\<lambda>(v, wh). 1 < length wh) counts = None"
  shows "line_clean board cells"
  unfolding line_clean_def
proof (intro ballI impI)
  fix c1 c2
  assume m: "c1 \<in> set cells" "c2 \<in> set cells"
    and h: "c1 \<noteq> c2 \<and> in_range board (fst c1) (snd c1) \<and> in_range board (fst c2) (snd c2)
        \<and> \<not> blank_at board c1 \<and> \<not> blank_at board c2"
  from group_cells_grouped[OF grp] have processed: "\<forall>c \<in> set cells. is_blank board (fst c) (snd c) = Inr True
            \<or> (is_blank board (fst c) (snd c) = Inr False \<and> (\<exists>v. getitem board c = Inr v))"
    by (simp add: grouping_ok_def)
  from processed m h obtain v1 v2 where
    1: "is_blank board (fst c1) (snd c1) = Inr False" "getitem board c1 = Inr v1" and
    2: "is_blank board (fst c2) (snd c2) = Inr False" "getitem board c2 = Inr v2"
    unfolding blank_at_def by blast
  from group_cells_stored[OF grp] have d: "distinct (map fst counts)"
    and st: "\<And>v. stored counts v = {c \<in> set cells. is_blank board (fst c) (snd c) = Inr False \<and> getitem board c = Inr v}"
    by (simp_all add: stored_def)
  show "getitem board c1 \<noteq> getitem board c2"
  proof
    assume "getitem board c1 = getitem board c2"
    with 1 2 have v: "v2 = v1" by simp
    from m 1 2 v have "c1 \<in> stored counts v1" "c2 \<in> stored counts v1" unfolding st by simp_all
    then obtain w1 w2 where w: "(v1, w1) \<in> set counts" "c1 \<in> set w1" "(v1, w2) \<in> set counts" "c2 \<in> set w2"
      unfolding stored_def by blast
    from d w(1,3) have "w1 = w2" by (rule eq_key_imp_eq_value)
    with w h have "c1 \<in> set w1" "c2 \<in> set w1" "c1 \<noteq> c2" by simp_all
    then have "1 < length w1"
      by (cases w1; cases "tl w1") auto
    moreover from fnd w(1) have "\<not> 1 < length w1"
      unfolding find_None_iff by blast
    ultimately show False by simp
  qed
qed

lemma for_each_invariant:
  assumes "for_each xs s body = Some (Inr s')" and "I s"
    and "\<And>x t t'. x \<in> set xs \<Longrightarrow> I t \<Longrightarrow> body x t = Some (Inr t') \<Longrightarrow> I t'"
  shows "I s'"
  using assms
proof (induction xs arbitrary: s)
  case Nil
  then show ?case by simp
next
  case (Cons x xs)
  from Cons.prems(1) obtain t where t: "body x s = Some (Inr t)" and r: "for_each xs t body = Some (Inr s')"
    by (auto simp add: then_do_def split: option.splits sum.splits)
  have "I t" using Cons.prems(3)[OF _ Cons.prems(2) t] by simp
  moreover have "\<And>y u u'. y \<in> set xs \<Longrightarrow> I u \<Longrightarrow> body y u = Some (Inr u') \<Longrightarrow> I u'"
    using Cons.prems(3) by (meson list.set_intros(2))
  ultimately show ?case using Cons.IH[OF r] by blast
qed

lemma sound_result_step:
  assumes "sound_result stages board answers T" and "sound_result stages b2 T S"
    and "good b2" and "extends board b2" and "Blank_some sel \<in> set stages"
  shows "sound_result stages board answers S"
  using assms unfolding sound_result_def by (blast intro: extends_trans)

lemma variant_good:
  assumes g: "good board" and sel: "select selector board = Inr cells"
    and grp: "group_cells board cells [] = Inr counts"
    and fnd: "List.find (\<lambda>(v, wh). 1 < length wh) counts = Some (v, wh)"
  shows "blank_all board wh = Inr (Some b2) \<Longrightarrow> good b2 \<and> extends board b2"
    and "blank_others board keep wh = Inr (Some b2) \<Longrightarrow> good b2 \<and> extends board b2"
proof -
  from find_Some_member[OF fnd] have mem: "(v, wh) \<in> set counts" by auto
  from g have r: "rectangular board" by (simp add: good_def)
  from group_solid(2)[OF sel grp mem] have ir: "\<forall>c \<in> set wh. in_range board (fst c) (snd c)"
    using cell_solid_in_range[OF r] by blast
  show "good b2 \<and> extends board b2" if "blank_all board wh = Inr (Some b2)"
    using blank_all_good[OF g ir that] .
  show "good b2 \<and> extends board b2" if "blank_others board keep wh = Inr (Some b2)"
  proof -
    from that have "blank_all board (filter (\<lambda>c. c \<noteq> keep) wh) = Inr (Some b2)"
      by (simp add: blank_others_filter)
    moreover have "\<forall>c \<in> set (filter (\<lambda>c. c \<noteq> keep) wh). in_range board (fst c) (snd c)"
      using ir by simp
    ultimately show ?thesis using blank_all_good[OF g] by blast
  qed
qed

lemma run_sound:
  "valid_order iteration \<Longrightarrow> tail_ok stages \<Longrightarrow> good board
    \<Longrightarrow> run iteration stages board answers = Some (Inr S) \<Longrightarrow> sound_result stages board answers S"
proof (induction iteration stages board answers arbitrary: S rule: run.induct)
  case (1 iteration board answers)
  then show ?case by (simp add: sound_result_def)
next
  case (2 iteration generators board answers)
  from "2.prems"(2) have g: "generators = []" by simp
  with "2.prems"(4) have "S = insert board answers" by simp
  with "2.prems"(3) g show ?case
    by (auto simp add: sound_result_def extends_refl guarantees_def)
next
  case (3 iteration generators board answers)
  from "3.prems"(3) have r: "rectangular board" and ne: "lines board \<noteq> []" by (simp_all add: good_def)
  note ch = connectedness_holds_good[OF "3.prems"(1) r ne]
  show ?case
  proof (cases "region_connected board")
    case False
    with "3.prems"(4) ch have "S = answers" by (simp add: then_do_def)
    then show ?thesis by (simp add: sound_result_def)
  next
    case True
    with "3.prems"(4) ch have rn: "run iteration generators board answers = Some (Inr S)"
      by (simp add: then_do_def)
    from "3.prems"(2) have t: "tail_ok generators" and nb: "\<forall>sel. Blank_some sel \<notin> set generators"
      by auto
    from "3.IH"[OF ch _ "3.prems"(1) t "3.prems"(3) rn] True
    have "sound_result generators board answers S" by simp
    with nb True show ?thesis unfolding sound_result_def guarantees_def by auto
  qed
next
  case (4 iteration selector generators board answers)
  let ?gens = "Blank_some selector # generators"
  from "4.prems"(3) have ne: "lines board \<noteq> []" by (simp add: good_def)
  from "4.prems"(4) obtain cells where sel: "select selector board = Inr cells"
    by (cases "select selector board") simp_all
  from "4.prems"(4) sel obtain counts where grp: "group_cells board cells [] = Inr counts"
    by (cases "group_cells board cells []") simp_all
  show ?case
  proof (cases "List.find (\<lambda>(v, wh). 1 < length wh) counts")
    case None
    with "4.prems"(4) sel grp have rn: "run iteration generators board answers = Some (Inr S)" by simp
    from "4.prems"(2) have t: "tail_ok generators" by simp
    from "4.IH"(1)[OF sel grp None "4.prems"(1) t "4.prems"(3) rn]
    have sr: "sound_result generators board answers S" .
    have lc: "line_clean board cells" using grp None by (rule no_duplicates_clean)
    show ?thesis unfolding sound_result_def
    proof (intro ballI)
      fix b' assume "b' \<in> S"
      with sr consider "b' \<in> answers" | "good b'" "extends board b'" "guarantees generators b'"
        unfolding sound_result_def by blast
      then show "b' \<in> answers \<or> (good b' \<and> extends board b' \<and> guarantees ?gens b'
         \<and> ((\<forall>sel. Blank_some sel \<notin> set ?gens) \<longrightarrow> b' = board))"
      proof cases
        case 1
        then show ?thesis by simp
      next
        case 2
        have "select selector b' = Inr cells" using extends_select[OF 2(2) ne] sel by simp
        moreover have "line_clean b' cells" using lc 2(2) by (rule line_clean_extends)
        ultimately have "guarantees ?gens b'" using 2(3) unfolding guarantees_def by auto
        with 2 show ?thesis by auto
      qed
    qed
  next
    case (Some vw)
    obtain v wh where vw: "vw = (v, wh)" by (cases vw)
    note fnd = Some[unfolded vw]
    note vg = variant_good[OF "4.prems"(3) sel grp fnd]
    let ?body = "\<lambda>keep answers. case blank_others board keep wh of Inl e \<Rightarrow> Some (Inl e)
              | Inr None \<Rightarrow> Some (Inr answers)
              | Inr (Some b2) \<Rightarrow> run iteration ?gens b2 answers"
    from "4.prems"(4) sel grp fnd obtain T where fe: "for_each wh answers ?body = Some (Inr T)"
      and fin: "(case blank_all board wh of Inl e \<Rightarrow> Some (Inl e)
              | Inr None \<Rightarrow> Some (Inr T)
              | Inr (Some b2) \<Rightarrow> run iteration ?gens b2 T) = Some (Inr S)"
      by (auto simp add: then_do_def split: option.splits sum.splits)
    have inv: "sound_result ?gens board answers T"
    proof (rule for_each_invariant[OF fe, where I = "sound_result ?gens board answers"])
      show "sound_result ?gens board answers answers" by (simp add: sound_result_def)
    next
      fix keep t t'
      assume k: "keep \<in> set wh" and t: "sound_result ?gens board answers t"
        and b: "?body keep t = Some (Inr t')"
      show "sound_result ?gens board answers t'"
      proof (cases "blank_others board keep wh")
        case (Inl e)
        with b show ?thesis by simp
      next
        case (Inr ob)
        show ?thesis
        proof (cases ob)
          case None
          with b Inr t show ?thesis by simp
        next
          case (Some b2)
          with b Inr have rn: "run iteration ?gens b2 t = Some (Inr t')" by simp
          from vg(2)[of keep b2] Inr Some have g2: "good b2" "extends board b2" by simp_all
          from "4.IH"(2)[OF sel grp fnd refl k Inr Some "4.prems"(1,2) g2(1) rn]
          have "sound_result ?gens b2 t t'" .
          from sound_result_step[OF t this g2, of selector] show ?thesis by simp
        qed
      qed
    qed
    show ?thesis
    proof (cases "blank_all board wh")
      case (Inl e)
      with fin show ?thesis by simp
    next
      case (Inr ob)
      show ?thesis
      proof (cases ob)
        case None
        with fin Inr inv show ?thesis by simp
      next
        case (Some b2)
        with fin Inr have rn: "run iteration ?gens b2 T = Some (Inr S)" by simp
        from vg(1)[of b2] Inr Some have g2: "good b2" "extends board b2" by simp_all
        from "4.IH"(3)[OF sel grp fnd refl fe Inr Some "4.prems"(1,2) g2(1) rn]
        have "sound_result ?gens b2 T S" .
        from sound_result_step[OF inv this g2, of selector] show ?thesis by simp
      qed
    qed
  qed
qed

lemma tail_ok_blanks: "tail_ok (map Blank_some sels @ [Check_connectedness, Collect_candidate])"
  by (induction sels) simp_all

lemma tail_ok_gens: "tail_ok (gens mx my)"
proof -
  have "gens mx my = map Blank_some (map Row_n [0..<my] @ map Col_n [0..<mx]) @ [Check_connectedness, Collect_candidate]"
    by (simp add: gens_def)
  then show ?thesis by (simp only: tail_ok_blanks)
qed

lemma well_formed_good:
  assumes "well_formed b" and ne: "lines b \<noteq> []"
  shows "good b"
proof -
  from assms have r: "rectangular b" and nb: "\<forall>l \<in> set (lines b). BLANK \<notin> set l"
    by (simp_all add: well_formed_def list_all_iff)
  have "\<not> blank_at b (x, y)" for x y
  proof
    assume "blank_at b (x, y)"
    then have i: "in_range b x y" and c: "lines b ! nat y ! nat x = BLANK"
      by (simp_all add: blank_at_rect[OF r ne])
    from i have y: "nat y < length (lines b)" and x: "nat x < length (lines b ! 0)"
      by (auto simp add: in_range_def)
    from rectangular_nth[OF r y] x have "nat x < length (lines b ! nat y)" by simp
    then have "lines b ! nat y ! nat x \<in> set (lines b ! nat y)" by simp
    moreover have "lines b ! nat y \<in> set (lines b)" using y by simp
    ultimately show False using nb c by auto
  qed
  then have "no_adjacent_blanks b" unfolding no_adjacent_blanks_iff[OF r ne] by blast
  with r ne show ?thesis by (simp add: good_def)
qed

lemma guarantees_unique:
  assumes g: "good b" and gu: "guarantees (gens (length (lines b ! 0)) (length (lines b))) b"
  shows "symbols_unique b"
  unfolding symbols_unique_def
proof (intro allI impI)
  fix x1 y1 x2 y2
  assume h: "in_range b x1 y1 \<and> in_range b x2 y2 \<and> (x1, y1) \<noteq> (x2, y2) \<and> (x1 = x2 \<or> y1 = y2)
        \<and> \<not> blank_at b (x1, y1) \<and> \<not> blank_at b (x2, y2)"
  let ?mx = "length (lines b ! 0)" and ?my = "length (lines b)"
  from g have ne: "lines b \<noteq> []" by (simp add: good_def)
  from h have r1: "0 \<le> x1" "x1 < int ?mx" "0 \<le> y1" "y1 < int ?my"
    and r2: "0 \<le> x2" "x2 < int ?mx" "0 \<le> y2" "y2 < int ?my"
    by (simp_all add: in_range_def)
  have g0: "py_getitem (lines b) 0 = Inr (lines b ! 0)" using ne by (simp add: py_getitem_in)
  from h have "x1 = x2 \<or> y1 = y2" by simp
  then show "getitem b (x1, y1) \<noteq> getitem b (x2, y2)"
  proof
    assume e: "y1 = y2"
    let ?cells = "map (\<lambda>x. (x, y1)) (py_range ?mx)"
    have "Blank_some (Row_n (nat y1)) \<in> set (gens ?mx ?my)"
      using r1 by (simp add: gens_def image_iff)
    moreover have "select (Row_n (nat y1)) b = Inr ?cells"
      using r1 by (simp add: row_def g0)
    ultimately have lc: "line_clean b ?cells" using gu unfolding guarantees_def by blast
    have "(x1, y1) \<in> set ?cells" "(x2, y2) \<in> set ?cells"
      using r1 r2 e by (simp_all add: set_py_range image_iff)
    with lc h show ?thesis unfolding line_clean_def by fastforce
  next
    assume e: "x1 = x2"
    let ?cells = "map (\<lambda>y. (x1, y)) (py_range ?my)"
    have "Blank_some (Col_n (nat x1)) \<in> set (gens ?mx ?my)"
      using r1 by (simp add: gens_def image_iff)
    moreover have "select (Col_n (nat x1)) b = Inr ?cells"
      using r1 by (simp add: col_def)
    ultimately have lc: "line_clean b ?cells" using gu unfolding guarantees_def by blast
    have "(x1, y1) \<in> set ?cells" "(x2, y2) \<in> set ?cells"
      using r1 r2 e by (simp_all add: set_py_range image_iff)
    with lc h show ?thesis unfolding line_clean_def by fastforce
  qed
qed

text \<open>
  Claim C1. For a well-formed input board and any iteration order of the cell set, every
  board in the set that \<open>solve\<close> returns satisfies the three conditions together: no row
  and no column holds two cells that are not blank with the same symbol, no two blank
  cells are orthogonally adjacent, and the cells that are not blank form one orthogonally
  connected region.
\<close>

theorem solve_sound:
  assumes v: "valid_order iteration" and wf: "well_formed B"
    and s: "solve iteration B = Some (Inr S)" and m: "b \<in> S"
  shows "symbols_unique b \<and> no_adjacent_blanks b \<and> region_connected b"
proof -
  from s obtain mx my where sz: "size_b B = Inr (mx, my)"
    and rn: "run iteration (gens mx my) B {} = Some (Inr S)"
    unfolding solve_def by (cases "size_b B") auto
  from sz have ne: "lines B \<noteq> []" and mx: "mx = length (lines B ! 0)" and my: "my = length (lines B)"
    by (auto simp add: size_b_def py_getitem_def norm_index_def split: if_splits)
  note g = well_formed_good[OF wf ne]
  from run_sound[OF v tail_ok_gens g rn] m
  have gb: "good b" and ex: "extends B b" and gu: "guarantees (gens mx my) b"
    unfolding sound_result_def by auto
  from ex have "length (lines b) = my" "length (lines b ! 0) = mx"
    by (simp_all add: extends_def mx my)
  with gu have "guarantees (gens (length (lines b ! 0)) (length (lines b))) b" by simp
  from guarantees_unique[OF gb this] have "symbols_unique b" .
  moreover from gb have "no_adjacent_blanks b" by (simp add: good_def)
  moreover from gu have "region_connected b" by (simp add: guarantees_def gens_def)
  ultimately show ?thesis by simp
qed

lemma run_order_independent:
  "valid_order iteration \<Longrightarrow> valid_order iteration'
    \<Longrightarrow> run iteration stages board answers = run iteration' stages board answers"
proof (induction iteration stages board answers rule: run.induct)
  case (1 iteration board answers)
  then show ?case by simp
next
  case (2 iteration generators board answers)
  then show ?case by simp
next
  case (3 iteration generators board answers)
  have c: "connectedness_holds iteration board = connectedness_holds iteration' board"
    unfolding connectedness_holds_eq[OF "3.prems"(1)] connectedness_holds_eq[OF "3.prems"(2)] ..
  show ?case unfolding run.simps
  proof (rule then_do_cong[OF c])
    fix passes assume p: "connectedness_holds iteration' board = Some (Inr passes)"
    show "(if \<not> passes then Some (Inr answers) else run iteration generators board answers)
        = (if \<not> passes then Some (Inr answers) else run iteration' generators board answers)"
      using "3.IH"[OF p[folded c] _ "3.prems"] by auto
  qed
next
  case (4 iteration selector generators board answers)
  let ?gens = "Blank_some selector # generators"
  show ?case
  proof (cases "select selector board")
    case (Inl e)
    then show ?thesis by simp
  next
    case (Inr cells)
    note sel = Inr
    show ?thesis
    proof (cases "group_cells board cells []")
      case (Inl e)
      with sel show ?thesis by simp
    next
      case (Inr counts)
      note grp = Inr
      show ?thesis
      proof (cases "List.find (\<lambda>(v, wh). 1 < length wh) counts")
        case None
        from "4.IH"(1)[OF sel grp None "4.prems"] sel grp None show ?thesis by simp
      next
        case (Some vw)
        obtain v wh where vw: "vw = (v, wh)" by (cases vw)
        note fnd = Some[unfolded vw]
        let ?body = "\<lambda>it keep answers. case blank_others board keep wh of Inl e \<Rightarrow> Some (Inl e)
              | Inr None \<Rightarrow> Some (Inr answers)
              | Inr (Some b2) \<Rightarrow> run it ?gens b2 answers"
        let ?fin = "\<lambda>it answers. case blank_all board wh of Inl e \<Rightarrow> Some (Inl e)
              | Inr None \<Rightarrow> Some (Inr answers)
              | Inr (Some b2) \<Rightarrow> run it ?gens b2 answers"
        have body: "?body iteration keep t = ?body iteration' keep t" if "keep \<in> set wh" for keep t
          using "4.IH"(2)[OF sel grp fnd refl that _ _ "4.prems"]
          by (auto split: sum.splits option.splits)
        have fe: "for_each wh answers (?body iteration) = for_each wh answers (?body iteration')"
          by (rule for_each_cong[OF refl refl]) (rule body)
        have fin: "?fin iteration a = ?fin iteration' a"
          if "for_each wh answers (?body iteration) = Some (Inr a)" for a
          using "4.IH"(3)[OF sel grp fnd refl that _ _ "4.prems"]
          by (auto split: sum.splits option.splits)
        have "then_do (for_each wh answers (?body iteration)) (?fin iteration)
            = then_do (for_each wh answers (?body iteration')) (?fin iteration')"
          by (rule then_do_cong[OF fe]) (rule fin[unfolded fe])
        with sel grp fnd show ?thesis by simp
      qed
    qed
  qed
qed

lemma stage_fits_extends:
  assumes "extends b b'"
  shows "stage_fits b' g = stage_fits b g"
proof -
  from assms have "length (lines b') = length (lines b)" "length (lines b' ! 0) = length (lines b ! 0)"
    by (simp_all add: extends_def)
  then show ?thesis by (cases "(b, g)" rule: stage_fits.cases) simp_all
qed

lemma select_fits:
  assumes "lines b \<noteq> []" and "stage_fits b (Blank_some sel)"
  shows "\<exists>cells. select sel b = Inr cells \<and> (\<forall>c \<in> set cells. in_range b (fst c) (snd c))"
proof (cases sel)
  case (Row_n n)
  with assms show ?thesis
    by (auto simp add: row_def py_getitem_in set_py_range in_range_def)
next
  case (Col_n n)
  with assms show ?thesis
    by (auto simp add: col_def set_py_range in_range_def)
qed

lemma getitem_in_range:
  assumes "rectangular b" and "in_range b x y"
  shows "getitem b (x, y) = Inr (lines b ! nat y ! nat x)"
proof -
  from assms(2) have y: "0 \<le> y" "y < int (length (lines b))" and x: "0 \<le> x" "x < int (length (lines b ! 0))"
    by (simp_all add: in_range_def)
  from y have "nat y < length (lines b)" by simp
  with assms(1) have "length (lines b ! nat y) = length (lines b ! 0)" by (intro rectangular_nth)
  with x y show ?thesis by (simp add: getitem_def py_getitem_in)
qed

lemma group_cells_returns:
  assumes r: "rectangular b" and ne: "lines b \<noteq> []"
  shows "\<forall>c \<in> set cells. in_range b (fst c) (snd c) \<Longrightarrow> \<exists>counts. group_cells b cells counts0 = Inr counts"
proof (induction cells arbitrary: counts0)
  case Nil
  then show ?case by simp
next
  case (Cons c cells)
  obtain x y where c: "c = (x, y)" by (cases c)
  from Cons.prems have i: "in_range b x y" and rest: "\<forall>c \<in> set cells. in_range b (fst c) (snd c)"
    by (simp_all add: c)
  from Cons.IH[OF rest] show ?case
    unfolding c by (simp add: is_blank_rect[OF r ne] getitem_in_range[OF r i])
qed

lemma blank_all_returns:
  "good b \<Longrightarrow> \<forall>c \<in> set cs. in_range b (fst c) (snd c) \<Longrightarrow> \<exists>res. blank_all b cs = Inr res"
proof (induction cs arbitrary: b)
  case Nil
  then show ?case by simp
next
  case (Cons c cs)
  obtain x y where c: "c = (x, y)" by (cases c)
  from Cons.prems(1) have r: "rectangular b" by (simp add: good_def)
  from Cons.prems(2) have i: "in_range b x y" by (simp add: c)
  from blank_rect[OF r i] consider "blank b x y = Inl ValueError" | b3 where "blank b x y = Inr b3"
    by (auto split: if_splits)
  then show ?case
  proof cases
    case 1
    then show ?thesis by (simp add: c)
  next
    case 2
    note bg = blank_good[OF Cons.prems(1) i 2]
    have "\<forall>c' \<in> set cs. in_range b3 (fst c') (snd c')"
      using Cons.prems(2) by (simp add: extends_in_range[OF bg(2)])
    from Cons.IH[OF bg(1) this] 2 show ?thesis by (simp add: c)
  qed
qed

lemma for_each_returns:
  assumes "\<And>x t. x \<in> set xs \<Longrightarrow> \<exists>t'. body x t = Some (Inr t')"
  shows "\<exists>s'. for_each xs s body = Some (Inr s')"
  using assms
proof (induction xs arbitrary: s)
  case Nil
  then show ?case by simp
next
  case (Cons x xs)
  from Cons.prems[of x s] obtain t where t: "body x s = Some (Inr t)" by auto
  have "\<And>y u. y \<in> set xs \<Longrightarrow> \<exists>u'. body y u = Some (Inr u')"
    using Cons.prems by (meson list.set_intros(2))
  from Cons.IH[OF this, of t] t show ?case by (simp add: then_do_def)
qed

text \<open>
  The recursion of the search itself ends and raises nothing on a well-formed board: with
  the call stack left unbounded, as in \<open>run\<close>, every invocation returns a set. This is
  what keeps the hypothesis \<open>solve iteration B = Some (Inr S)\<close> of the claims on \<open>solve\<close>
  satisfiable on every well-formed board with a line; it is not a statement about the
  interpreter's recursion limit.
\<close>

lemma run_returns:
  "valid_order iteration \<Longrightarrow> good board \<Longrightarrow> list_all (stage_fits board) stages
    \<Longrightarrow> \<exists>S. run iteration stages board answers = Some (Inr S)"
proof (induction iteration stages board answers rule: run.induct)
  case (1 iteration board answers)
  then show ?case by simp
next
  case (2 iteration generators board answers)
  then show ?case by simp
next
  case (3 iteration generators board answers)
  from "3.prems"(2) have r: "rectangular board" and ne: "lines board \<noteq> []" by (simp_all add: good_def)
  note ch = connectedness_holds_good[OF "3.prems"(1) r ne]
  show ?case
  proof (cases "region_connected board")
    case False
    with ch show ?thesis by (simp add: then_do_def)
  next
    case True
    from "3.IH"[OF ch _ "3.prems"(1,2)] True "3.prems"(3) ch show ?thesis
      by (simp add: then_do_def)
  qed
next
  case (4 iteration selector generators board answers)
  let ?stages = "Blank_some selector # generators"
  from "4.prems"(2) have r: "rectangular board" and ne: "lines board \<noteq> []" by (simp_all add: good_def)
  from "4.prems"(3) have fit: "stage_fits board (Blank_some selector)" and fits: "list_all (stage_fits board) generators"
    by simp_all
  from select_fits[OF ne fit] obtain cells where sel: "select selector board = Inr cells"
    and ir: "\<forall>c \<in> set cells. in_range board (fst c) (snd c)" by blast
  from group_cells_returns[OF r ne ir] obtain counts where grp: "group_cells board cells [] = Inr counts"
    by blast
  show ?case
  proof (cases "List.find (\<lambda>(v, wh). 1 < length wh) counts")
    case None
    from "4.IH"(1)[OF sel grp None "4.prems"(1,2) fits] sel grp None show ?thesis by simp
  next
    case (Some vw)
    obtain v wh where vw: "vw = (v, wh)" by (cases vw)
    note fnd = Some[unfolded vw]
    note vg = variant_good[OF "4.prems"(2) sel grp fnd]
    from find_Some_member[OF fnd] have mem: "(v, wh) \<in> set counts" by auto
    from group_solid(2)[OF sel grp mem] have wir: "\<forall>c \<in> set wh. in_range board (fst c) (snd c)"
      using cell_solid_in_range[OF r] by blast
    have fits2: "list_all (stage_fits b2) ?stages" if "extends board b2" for b2
      using "4.prems"(3) unfolding list_all_iff by (simp add: stage_fits_extends[OF that])
    let ?body = "\<lambda>keep answers. case blank_others board keep wh of Inl e \<Rightarrow> Some (Inl e)
              | Inr None \<Rightarrow> Some (Inr answers)
              | Inr (Some b2) \<Rightarrow> run iteration ?stages b2 answers"
    have body: "\<exists>t'. ?body keep t = Some (Inr t')" if k: "keep \<in> set wh" for keep t
    proof -
      have "\<forall>c \<in> set (filter (\<lambda>c. c \<noteq> keep) wh). in_range board (fst c) (snd c)" using wir by simp
      from blank_all_returns[OF "4.prems"(2) this] obtain res where res: "blank_others board keep wh = Inr res"
        by (auto simp add: blank_others_filter)
      show ?thesis
      proof (cases res)
        case None
        with res show ?thesis by simp
      next
        case (Some b2)
        from vg(2)[of keep b2] res Some have g2: "good b2" "extends board b2" by simp_all
        from "4.IH"(2)[OF sel grp fnd refl k res Some "4.prems"(1) g2(1) fits2[OF g2(2)], of t] res Some
        show ?thesis by simp
      qed
    qed
    from for_each_returns[of wh ?body answers] body obtain T where fe: "for_each wh answers ?body = Some (Inr T)"
      by blast
    from blank_all_returns[OF "4.prems"(2) wir] obtain res where res: "blank_all board wh = Inr res" by blast
    have "\<exists>S. (case blank_all board wh of Inl e \<Rightarrow> Some (Inl e)
              | Inr None \<Rightarrow> Some (Inr T)
              | Inr (Some b2) \<Rightarrow> run iteration ?stages b2 T) = Some (Inr S)"
    proof (cases res)
      case None
      with res show ?thesis by simp
    next
      case (Some b2)
      from vg(1)[of b2] res Some have g2: "good b2" "extends board b2" by simp_all
      from "4.IH"(3)[OF sel grp fnd refl fe res Some "4.prems"(1) g2(1) fits2[OF g2(2)]] res Some
      show ?thesis by simp
    qed
    with sel grp fnd fe show ?thesis by (simp add: then_do_def)
  qed
qed

lemma gens_fit:
  assumes "lines b \<noteq> []"
  shows "list_all (stage_fits b) (gens (length (lines b ! 0)) (length (lines b)))"
  by (simp add: gens_def list_all_iff image_iff) auto

lemma solve_returns:
  assumes v: "valid_order iteration" and wf: "well_formed B" and ne: "lines B \<noteq> []"
  shows "\<exists>S. solve iteration B = Some (Inr S)"
proof -
  have sz: "size_b B = Inr (length (lines B ! 0), length (lines B))"
    using ne by (simp add: size_b_def py_getitem_in)
  from run_returns[OF v well_formed_good[OF wf ne] gens_fit[OF ne]] show ?thesis
    unfolding solve_def sz by simp
qed

lemma valid_order_remdups: "valid_order remdups"
  by (simp add: valid_order_def)

lemma valid_order_rev_remdups: "valid_order (\<lambda>xs. rev (remdups xs))"
  by (simp add: valid_order_def)

lemma solve_example:
  "solve remdups (Board [''11'', ''21'']) = Some (Inr {Board [''1#'', ''21'']})"
  by (simp add: solve_def gens_def size_b_def py_getitem_def norm_index_def upt_rec row_def col_def py_range_def
      is_blank_def getitem_def BLANK_def blank_def or_else_def py_setitem_def slice_to_def slice_from_def Hitori_def
      connectedness_holds_def grid_def then_do_def UnionFind_def union_uf_def find_uf_def find_loop.simps)

lemma solve_example_rev:
  "solve (\<lambda>xs. rev (remdups xs)) (Board [''11'', ''21'']) = Some (Inr {Board [''1#'', ''21'']})"
  by (simp add: solve_def gens_def size_b_def py_getitem_def norm_index_def upt_rec row_def col_def py_range_def
      is_blank_def getitem_def BLANK_def blank_def or_else_def py_setitem_def slice_to_def slice_from_def Hitori_def
      connectedness_holds_def grid_def then_do_def UnionFind_def union_uf_def find_uf_def find_loop.simps)

text \<open>
  Witness for C1: the board \<open>11 / 21\<close>, whose only solution is \<open>1# / 21\<close>.
\<close>

theorem solve_sound_witness:
  "valid_order remdups \<and> well_formed (Board [''11'', ''21''])
   \<and> solve remdups (Board [''11'', ''21'']) = Some (Inr {Board [''1#'', ''21'']})
   \<and> Board [''1#'', ''21''] \<in> {Board [''1#'', ''21'']}
   \<and> symbols_unique (Board [''1#'', ''21'']) \<and> no_adjacent_blanks (Board [''1#'', ''21''])
   \<and> region_connected (Board [''1#'', ''21''])"
proof -
  have wf: "well_formed (Board [''11'', ''21''])"
    by (simp add: well_formed_def rectangular_def BLANK_def)
  have m: "Board [''1#'', ''21''] \<in> {Board [''1#'', ''21'']}" by simp
  from solve_sound[OF valid_order_remdups wf solve_example m] valid_order_remdups wf solve_example
  show ?thesis by simp
qed

text \<open>
  Claim C8. \<open>solve\<close> is a function of the board alone: it reads nothing but its argument
  and starts from an empty set of answers, and the one thing the language leaves open, the
  iteration order of the set of cells in \<open>check_connectedness\<close>, does not change the
  result. For a well-formed board, two invocations that both return, under any two
  iteration orders, return the same set of boards.
\<close>

theorem solve_deterministic:
  assumes "valid_order iteration" and "valid_order iteration'" and "well_formed B"
    and "solve iteration B = Some (Inr S)" and "solve iteration' B = Some (Inr S')"
  shows "S = S'"
proof -
  have "solve iteration B = solve iteration' B"
    unfolding solve_def using run_order_independent[OF assms(1,2)] by (simp split: sum.splits)
  with assms(4,5) show ?thesis by simp
qed

text \<open>
  Witness for C8: the board \<open>11 / 21\<close> under an iteration order and its reverse; both
  invocations are evaluated and return the one solution \<open>1# / 21\<close>.
\<close>

theorem solve_deterministic_witness:
  "valid_order remdups \<and> valid_order (\<lambda>xs. rev (remdups xs)) \<and> well_formed (Board [''11'', ''21''])
   \<and> solve remdups (Board [''11'', ''21'']) = Some (Inr {Board [''1#'', ''21'']})
   \<and> solve (\<lambda>xs. rev (remdups xs)) (Board [''11'', ''21'']) = Some (Inr {Board [''1#'', ''21'']})
   \<and> {Board [''1#'', ''21'']} = {Board [''1#'', ''21'']}"
proof -
  have wf: "well_formed (Board [''11'', ''21''])"
    by (simp add: well_formed_def rectangular_def BLANK_def)
  from solve_deterministic[OF valid_order_remdups valid_order_rev_remdups wf solve_example solve_example_rev]
  have e: "{Board [''1#'', ''21'']} = {Board [''1#'', ''21'']}" .
  show ?thesis
    by (intro conjI valid_order_remdups valid_order_rev_remdups wf solve_example solve_example_rev e)
qed

end
